theory Spec2Isabelle
  imports Complex_Main "HOL-Library.Log_Nat"
begin

section \<open>Data model of the point quadtree\<close>

text \<open>
  The program is \<^verbatim>\<open>src/quadtree/quadtree.py\<close>. A point is a pair of coordinates
  (\<^verbatim>\<open>point[X]\<close>, \<^verbatim>\<open>point[Y]\<close> with \<^verbatim>\<open>X = 0\<close>, \<^verbatim>\<open>Y = 1\<close>). Coordinates are modelled as
  exact rationals: every Python int and every finite float is a rational, the program only
  adds, subtracts, halves and compares coordinates, and rounding of floats is not modelled.
\<close>

type_synonym point = "rat \<times> rat"

text \<open>
  \<^verbatim>\<open>class QuadTreeNode\<close> with \<^verbatim>\<open>__slots__ = "child", "center", "size", "bucket", "leaf"\<close>.
  The slot \<^verbatim>\<open>child\<close> is a list of exactly four entries (\<^verbatim>\<open>[None] * 4\<close>) that is only ever
  read and written by index, so it is kept as four optional fields; \<open>child\<close> below gives
  the list view. The field \<^verbatim>\<open>size\<close> is named \<open>size_xy\<close> (\<open>size\<close> is taken in HOL).
\<close>

datatype QuadTreeNode =
  Node (child0: "QuadTreeNode option") (child1: "QuadTreeNode option")
       (child2: "QuadTreeNode option") (child3: "QuadTreeNode option")
       (center: point) (size_xy: point) (bucket: "point list") (leaf: bool)

definition child :: "QuadTreeNode \<Rightarrow> QuadTreeNode option list" where
  "child n = [child0 n, child1 n, child2 n, child3 n]"

text \<open>\<^verbatim>\<open>QuadTreeNode.__init__(center, size)\<close>: a fresh leaf without children.\<close>

definition QuadTreeNode :: "point \<Rightarrow> point \<Rightarrow> QuadTreeNode" where
  "QuadTreeNode c s = Node None None None None c s [] True"

text \<open>The assignments \<^verbatim>\<open>node.child[quad] = c\<close>, \<^verbatim>\<open>node.bucket = b\<close> and \<^verbatim>\<open>node.leaf = l\<close>.
  The index \<open>quad\<close> is always one of 0..3 in the program (a result of \<open>quadrant\<close> or
  a value of \<^verbatim>\<open>range(4)\<close>).\<close>

fun set_child :: "nat \<Rightarrow> QuadTreeNode option \<Rightarrow> QuadTreeNode \<Rightarrow> QuadTreeNode" where
  "set_child quad c (Node c0 c1 c2 c3 ce sz b l) =
     (if quad = 0 then Node c c1 c2 c3 ce sz b l
      else if quad = 1 then Node c0 c c2 c3 ce sz b l
      else if quad = 2 then Node c0 c1 c c3 ce sz b l
      else if quad = 3 then Node c0 c1 c2 c ce sz b l
      else Node c0 c1 c2 c3 ce sz b l)"

fun set_bucket :: "point list \<Rightarrow> QuadTreeNode \<Rightarrow> QuadTreeNode" where
  "set_bucket b' (Node c0 c1 c2 c3 ce sz b l) = Node c0 c1 c2 c3 ce sz b' l"

fun set_leaf :: "bool \<Rightarrow> QuadTreeNode \<Rightarrow> QuadTreeNode" where
  "set_leaf l' (Node c0 c1 c2 c3 ce sz b l) = Node c0 c1 c2 c3 ce sz b l'"

text \<open>\<^verbatim>\<open>class QuadTree\<close>: the root node and \<^verbatim>\<open>max_bucket_size\<close> (a Python int).\<close>

record QuadTree =
  root :: QuadTreeNode
  max_bucket_size :: int

section \<open>Geometry\<close>

definition LOWER_LEFT_QUAD :: nat where "LOWER_LEFT_QUAD = 0"
definition UPPER_LEFT_QUAD :: nat where "UPPER_LEFT_QUAD = 1"
definition LOWER_RIGHT_QUAD :: nat where "LOWER_RIGHT_QUAD = 2"
definition UPPER_RIGHT_QUAD :: nat where "UPPER_RIGHT_QUAD = 3"


text \<open>\<^verbatim>\<open>QuadTreeNode.quadrant\<close>: \<^verbatim>\<open>q = 0\<close>, plus 2 if \<^verbatim>\<open>point[X] >= center[X]\<close>, plus 1 if
  \<^verbatim>\<open>point[Y] >= center[Y]\<close>.\<close>

definition quadrant :: "QuadTreeNode \<Rightarrow> point \<Rightarrow> nat" where
  "quadrant n p =
     (let q = 0;
          q = (if fst p \<ge> fst (center n) then q + 2 else q);
          q = (if snd p \<ge> snd (center n) then q + 1 else q)
      in q)"

text \<open>\<^verbatim>\<open>QuadTreeNode.child_center\<close>.\<close>

definition child_center :: "QuadTreeNode \<Rightarrow> nat \<Rightarrow> point" where
  "child_center n quad =
     (let (vx, vy) = center n; (sx, sy) = size_xy n in
      if quad = LOWER_LEFT_QUAD then (vx - sx / 2, vy - sy / 2)
      else if quad = UPPER_LEFT_QUAD then (vx - sx / 2, vy + sy / 2)
      else if quad = LOWER_RIGHT_QUAD then (vx + sx / 2, vy - sy / 2)
      else if quad = UPPER_RIGHT_QUAD then (vx + sx / 2, vy + sy / 2)
      else (vx, vy))"

text \<open>\<^verbatim>\<open>QuadTreeNode.region\<close>: the corners \<^verbatim>\<open>center - size\<close> and \<^verbatim>\<open>center + size\<close>.\<close>

definition region :: "QuadTreeNode \<Rightarrow> point \<times> point" where
  "region n =
     ((fst (center n) - fst (size_xy n), snd (center n) - snd (size_xy n)),
      (fst (center n) + fst (size_xy n), snd (center n) + snd (size_xy n)))"

text \<open>\<^verbatim>\<open>point_in_region\<close>: inclusive on all four bounds.\<close>

definition point_in_region :: "point \<Rightarrow> point \<Rightarrow> point \<Rightarrow> bool" where
  "point_in_region p minXY maxXY =
     (if fst p \<ge> fst minXY \<and> fst p \<le> fst maxXY \<and> snd p \<ge> snd minXY \<and> snd p \<le> snd maxXY
      then True else False)"


section \<open>Construction\<close>

text \<open>
  \<^verbatim>\<open>next_pow2(value) = float(1 << int(math.ceil(math.log2(value))))\<close>. \<^verbatim>\<open>math.log2\<close> raises
  \<^verbatim>\<open>ValueError\<close> for a value that is not positive, and \<^verbatim>\<open>1 << e\<close> raises \<^verbatim>\<open>ValueError\<close> for
  a negative shift count \<open>e\<close>. The logarithm is the exact one.
\<close>

datatype error = ValueError

definition next_pow2 :: "rat \<Rightarrow> error + rat" where
  "next_pow2 v =
     (if v \<le> 0 then Inl ValueError
      else let e = \<lceil>log 2 (real_of_rat v)\<rceil> in
        if e < 0 then Inl ValueError else Inr (2 ^ nat e))"

text \<open>The same function without the logarithm, for evaluation: the exponent is the least
  \<open>k\<close> with \<open>v \<le> 2 ^ k\<close>.\<close>

lemma ceil_log2_le_iff:
  fixes x :: real
  assumes "0 < x"
  shows "nat \<lceil>log 2 x\<rceil> \<le> k \<longleftrightarrow> x \<le> 2 ^ k"
proof -
  have "nat \<lceil>log 2 x\<rceil> \<le> k \<longleftrightarrow> \<lceil>log 2 x\<rceil> \<le> int k" by linarith
  also have "\<dots> \<longleftrightarrow> log 2 x \<le> real k" by (simp add: ceiling_le_iff)
  also have "\<dots> \<longleftrightarrow> x \<le> 2 powr (real k)" using assms by (simp add: log_le_iff)
  also have "\<dots> \<longleftrightarrow> x \<le> 2 ^ k" by (simp add: powr_realpow)
  finally show ?thesis .
qed

lemma next_pow2_code [code]:
  "next_pow2 v = (if v \<le> 1 / 2 then Inl ValueError else Inr (2 ^ ceillog2 (nat \<lceil>v\<rceil>)))"
proof (cases "v \<le> 0")
  case True
  then show ?thesis by (simp add: next_pow2_def)
next
  case pos: False
  let ?x = "real_of_rat v"
  have x: "0 < ?x" using pos by simp
  show ?thesis
  proof (cases "v \<le> 1 / 2")
    case True
    then have "?x \<le> 1 / 2" by (metis of_rat_less_eq of_rat_divide of_rat_1 of_rat_numeral_eq)
    then have "log 2 ?x \<le> log 2 (1 / 2)" using x by simp
    also have "log 2 (1 / 2 :: real) = - 1" by (simp add: log_divide)
    finally have l: "log 2 ?x \<le> - 1" .
    then have "\<lceil>log 2 ?x\<rceil> \<le> - 1" by (simp add: ceiling_le_iff)
    then have "\<lceil>log 2 ?x\<rceil> < 0" by linarith
    then show ?thesis using True pos l by (simp add: next_pow2_def Let_def)
  next
    case False
    then have "1 / 2 < ?x" by (metis not_le of_rat_less of_rat_divide of_rat_1 of_rat_numeral_eq)
    then have "log 2 (1 / 2) < log 2 ?x" using x by (subst log_less_cancel_iff) auto
    moreover have "log 2 (1 / 2 :: real) = - 1" by (simp add: log_divide)
    ultimately have e: "0 \<le> \<lceil>log 2 ?x\<rceil>" by linarith
    have m: "0 < nat \<lceil>v\<rceil>" using pos by simp
    have "nat \<lceil>log 2 ?x\<rceil> \<le> k \<longleftrightarrow> ceillog2 (nat \<lceil>v\<rceil>) \<le> k" for k
    proof -
      have "nat \<lceil>log 2 ?x\<rceil> \<le> k \<longleftrightarrow> ?x \<le> 2 ^ k" by (rule ceil_log2_le_iff [OF x])
      also have "\<dots> \<longleftrightarrow> v \<le> 2 ^ k" by (metis of_rat_less_eq of_rat_power of_rat_numeral_eq)
      also have "\<dots> \<longleftrightarrow> \<lceil>v\<rceil> \<le> 2 ^ k" by (simp add: ceiling_le_iff)
      also have "\<dots> \<longleftrightarrow> nat \<lceil>v\<rceil> \<le> 2 ^ k" by (simp add: nat_le_iff)
      also have "\<dots> \<longleftrightarrow> ceillog2 (nat \<lceil>v\<rceil>) \<le> k" using m by (simp add: ceillog2_le_iff)
      finally show ?thesis .
    qed
    then have "nat \<lceil>log 2 ?x\<rceil> = ceillog2 (nat \<lceil>v\<rceil>)"
      by (meson order_antisym order_refl)
    then show ?thesis using False pos e by (simp add: next_pow2_def Let_def)
  qed
qed

text \<open>\<^verbatim>\<open>center_size(region)\<close>; the argument is named \<open>rect\<close> here.\<close>

definition center_size :: "point \<times> point \<Rightarrow> error + (point \<times> point)" where
  "center_size rect =
     (let (xymin, xymax) = rect;
          x_min = fst xymin; y_min = snd xymin;
          x_max = fst xymax; y_max = snd xymax;
          x_size = x_max - x_min;
          y_size = y_max - y_min;
          center = (x_min + 1 / 2 * x_size, y_min + 1 / 2 * y_size) in
      case next_pow2 x_size of Inl e \<Rightarrow> Inl e
      | Inr px \<Rightarrow>
        (case next_pow2 y_size of Inl e \<Rightarrow> Inl e
         | Inr py \<Rightarrow> let hsize = max px py in Inr (center, (hsize, hsize))))"

text \<open>\<^verbatim>\<open>QuadTree.__init__(region, bucketSize)\<close>. It is named \<open>new_QuadTree\<close> here.\<close>

definition new_QuadTree :: "point \<times> point \<Rightarrow> int \<Rightarrow> error + QuadTree" where
  "new_QuadTree rect bucketSize =
     (case center_size rect of Inl e \<Rightarrow> Inl e
      | Inr (c, s) \<Rightarrow> Inr \<lparr>root = QuadTreeNode c s, max_bucket_size = bucketSize\<rparr>)"

section \<open>Insertion\<close>

text \<open>
  \<^verbatim>\<open>QuadTreeNode.fitting_child_node(v)\<close> returns the child of the quadrant of \<open>v\<close> and
  creates it when the slot is empty. The model returns the child together with the node
  after the possible assignment to the slot.
\<close>

definition fitting_child_node :: "QuadTreeNode \<Rightarrow> point \<Rightarrow> QuadTreeNode \<times> QuadTreeNode" where
  "fitting_child_node n v =
     (let quad = quadrant n v in
      case child n ! quad of
        Some c \<Rightarrow> (c, n)
      | None \<Rightarrow>
          let r = (fst (size_xy n) / 2, snd (size_xy n) / 2);
              c = QuadTreeNode (child_center n quad) r
          in (c, set_child quad (Some c) n))"

text \<open>
  The statement \<^verbatim>\<open>self._insert(v, node.fitting_child_node(v))\<close>. The Python call mutates
  the child object in place; here the child returned by the recursive call \<open>ins\<close> is
  stored back into the slot it came from. \<open>None\<close> means that the call did not return.
\<close>

definition insert_child ::
  "(point \<Rightarrow> QuadTreeNode \<Rightarrow> QuadTreeNode option) \<Rightarrow> point \<Rightarrow> QuadTreeNode \<Rightarrow> QuadTreeNode option" where
  "insert_child ins v n =
     (let (c, n') = fitting_child_node n v in
      case ins v c of
        None \<Rightarrow> None
      | Some c' \<Rightarrow> Some (set_child (quadrant n v) (Some c') n'))"

text \<open>The loop \<^verbatim>\<open>for v in node.bucket: self._insert(v, node.fitting_child_node(v))\<close>.\<close>

primrec insert_all ::
  "(point \<Rightarrow> QuadTreeNode \<Rightarrow> QuadTreeNode option) \<Rightarrow> point list \<Rightarrow> QuadTreeNode \<Rightarrow> QuadTreeNode option" where
  "insert_all ins [] n = Some n"
| "insert_all ins (p # ps) n =
     (case insert_child ins p n of None \<Rightarrow> None | Some n' \<Rightarrow> insert_all ins ps n')"

text \<open>
  \<^verbatim>\<open>QuadTree._insert(v, node)\<close>, named \<open>insert_node\<close>. The recursion of the program need
  not end (a full leaf is split again and again while all its points fall into one
  quadrant), so the first argument bounds the depth of nested calls, as Python's recursion
  limit does; \<open>None\<close> is the call that does not return. The second argument is
  \<^verbatim>\<open>self.max_bucket_size\<close>.
\<close>

primrec insert_node :: "nat \<Rightarrow> int \<Rightarrow> point \<Rightarrow> QuadTreeNode \<Rightarrow> QuadTreeNode option" where
  "insert_node 0 cap v node = None"
| "insert_node (Suc depth) cap v node =
     (if leaf node then
        if int (length (bucket node)) < cap then
          if v \<notin> set (bucket node) then Some (set_bucket (bucket node @ [v]) node)
          else Some node
        else
          (case insert_child (insert_node depth cap) v (set_leaf False node) of
             None \<Rightarrow> None
           | Some node1 \<Rightarrow>
               (case insert_all (insert_node depth cap) (bucket node) node1 of
                  None \<Rightarrow> None
                | Some node2 \<Rightarrow> Some (set_bucket [] node2)))
      else insert_child (insert_node depth cap) v node)"

text \<open>\<^verbatim>\<open>QuadTree.add(v)\<close>, with the bound on the recursion depth.\<close>

definition add :: "nat \<Rightarrow> point \<Rightarrow> QuadTree \<Rightarrow> QuadTree option" where
  "add depth v t =
     (case insert_node depth (max_bucket_size t) v (root t) of
        None \<Rightarrow> None
      | Some r \<Rightarrow> Some (t\<lparr>root := r\<rparr>))"

section \<open>Membership and iteration\<close>

lemma quadrant_less_4: "quadrant n p < 4"
  by (simp add: quadrant_def Let_def)

lemma child_size_less: "i < 4 \<Longrightarrow> child n ! i = Some c \<Longrightarrow> size c < size n"
  by (cases n) (auto simp add: child_def nth_Cons' less_Suc_eq numeral_eq_Suc split: if_splits)

text \<open>\<^verbatim>\<open>QuadTree.__contains__(v)\<close>: the loop that walks down from a node.\<close>

function contains_walk :: "point \<Rightarrow> QuadTreeNode \<Rightarrow> bool" where
  "contains_walk v node =
     (if \<not> leaf node then
        (let quad = quadrant node v in
         case child node ! quad of
           Some c \<Rightarrow> contains_walk v c
         | None \<Rightarrow> False)
      else if v \<in> set (bucket node) then True else False)"
  by pat_completeness auto
termination
  by (relation "measure (\<lambda>(v, node). size node)")
    (auto intro: child_size_less [OF quadrant_less_4])

declare contains_walk.simps [simp del]

definition contains :: "point \<Rightarrow> QuadTree \<Rightarrow> bool" where
  "contains v t = contains_walk v (root t)"

text \<open>\<^verbatim>\<open>QuadTreeNode.preorder\<close>: the node, then the subtrees of its present children in
  slot order.\<close>

fun preorder :: "QuadTreeNode \<Rightarrow> QuadTreeNode list" where
  "preorder (Node c0 c1 c2 c3 ce sz b l) =
     Node c0 c1 c2 c3 ce sz b l
     # (case c0 of None \<Rightarrow> [] | Some c \<Rightarrow> preorder c)
     @ (case c1 of None \<Rightarrow> [] | Some c \<Rightarrow> preorder c)
     @ (case c2 of None \<Rightarrow> [] | Some c \<Rightarrow> preorder c)
     @ (case c3 of None \<Rightarrow> [] | Some c \<Rightarrow> preorder c)"

text \<open>\<^verbatim>\<open>QuadTree.__iter__\<close>: the points of the buckets of the leaf nodes, in pre-order.\<close>

definition iter_node :: "QuadTreeNode \<Rightarrow> point list" where
  "iter_node n = concat (map (\<lambda>node. if leaf node then bucket node else []) (preorder n))"

definition iter :: "QuadTree \<Rightarrow> point list" where
  "iter t = iter_node (root t)"

section \<open>Removal\<close>

text \<open>
  \<^verbatim>\<open>QuadTree.remove\<close> records the visited nodes in the list \<^verbatim>\<open>trace\<close> (root first, the
  reached node \<^verbatim>\<open>top\<close> last) and \<^verbatim>\<open>_reduce\<close> later mutates those node objects in place.
  Nodes are values here, so the trace is kept as the reached node \<open>topn\<close> together with the
  list of its ancestors, nearest first, each with the slot through which the walk left it;
  a node changed at the end of the trace is stored back into that slot of its parent.
\<close>

function remove_walk ::
  "point \<Rightarrow> QuadTreeNode \<Rightarrow> (QuadTreeNode \<times> nat) list
    \<Rightarrow> (QuadTreeNode \<times> (QuadTreeNode \<times> nat) list) option" where
  "remove_walk v topn trace =
     (if \<not> leaf topn then
        (let quad = quadrant topn v in
         case child topn ! quad of
           Some c \<Rightarrow> remove_walk v c ((topn, quad) # trace)
         | None \<Rightarrow> None)
      else Some (topn, trace))"
  by pat_completeness auto
termination
  by (relation "measure (\<lambda>(v, topn, trace). size topn)")
    (auto intro: child_size_less [OF quadrant_less_4])

declare remove_walk.simps [simp del]

text \<open>The root after the node at the end of the trace has been changed in place.\<close>

fun plug :: "QuadTreeNode \<Rightarrow> (QuadTreeNode \<times> nat) list \<Rightarrow> QuadTreeNode" where
  "plug cur [] = cur"
| "plug cur ((parent, quad) # trace) = plug (set_child quad (Some cur) parent) trace"

text \<open>The first loop over \<^verbatim>\<open>range(4)\<close> in \<^verbatim>\<open>_reduce\<close>: it returns from \<^verbatim>\<open>_reduce\<close> at a
  present child that is not a leaf, and otherwise adds up the bucket lengths of the
  present children.\<close>

definition has_stem_child :: "QuadTreeNode \<Rightarrow> bool" where
  "has_stem_child topn =
     list_ex (\<lambda>ch. case ch of Some c \<Rightarrow> \<not> leaf c | None \<Rightarrow> False) (child topn)"

definition num_keys :: "QuadTreeNode \<Rightarrow> nat" where
  "num_keys topn =
     fold (\<lambda>ch numKeys. case ch of Some c \<Rightarrow> numKeys + length (bucket c) | None \<Rightarrow> numKeys)
       (child topn) 0"

text \<open>The second loop: \<^verbatim>\<open>top.bucket.extend(top.child[i].bucket); top.child[i] = None\<close> for
  every present child, then \<^verbatim>\<open>top.leaf = True\<close>.\<close>

definition absorb_children :: "QuadTreeNode \<Rightarrow> QuadTreeNode" where
  "absorb_children topn =
     set_leaf True
       (fold (\<lambda>i n. case child n ! i of
                       Some c \<Rightarrow> set_child i None (set_bucket (bucket n @ bucket c) n)
                     | None \<Rightarrow> n)
          [0..<4] topn)"

text \<open>
  \<^verbatim>\<open>QuadTree._reduce(trace)\<close>, named \<open>reduce\<close>, after its first \<^verbatim>\<open>trace.pop()\<close>: \<open>cur\<close>
  is the node popped last, the list holds the rest of the trace. The result is the root.
\<close>

fun reduce :: "int \<Rightarrow> QuadTreeNode \<Rightarrow> (QuadTreeNode \<times> nat) list \<Rightarrow> QuadTreeNode" where
  "reduce cap cur [] = cur"
| "reduce cap cur ((parent, quad) # trace) =
     (let topn = set_child quad (Some cur) parent in
      if has_stem_child topn then plug topn trace
      else
        let numKeys = num_keys topn;
            canReduce = (int numKeys \<le> cap) in
        if canReduce then reduce cap (absorb_children topn) trace
        else plug topn trace)"

text \<open>\<^verbatim>\<open>QuadTree.remove(v)\<close>: the returned flag and the tree afterwards.
  \<^verbatim>\<open>list.remove\<close> deletes the first occurrence.\<close>

definition remove :: "point \<Rightarrow> QuadTree \<Rightarrow> bool \<times> QuadTree" where
  "remove v t =
     (case remove_walk v (root t) [] of
        None \<Rightarrow> (False, t)
      | Some (topn, trace) \<Rightarrow>
          if v \<in> set (bucket topn) then
            (True, t\<lparr>root := reduce (max_bucket_size t)
                               (set_bucket (remove1 v (bucket topn)) topn) trace\<rparr>)
          else (False, t))"

section \<open>Range search\<close>








section \<open>Sequences of calls\<close>

text \<open>
  A tree state of the program is what a sequence of \<^verbatim>\<open>add\<close> and \<^verbatim>\<open>remove\<close> calls leaves
  of a freshly constructed tree. \<open>run\<close> performs the calls in order; it is \<open>None\<close> when
  one of the \<^verbatim>\<open>add\<close> calls does not return within the recursion depth \<open>depth\<close>.
\<close>

datatype call = Add point | Remove point

fun run :: "nat \<Rightarrow> call list \<Rightarrow> QuadTree \<Rightarrow> QuadTree option" where
  "run depth [] t = Some t"
| "run depth (Add v # calls) t =
     (case add depth v t of None \<Rightarrow> None | Some t' \<Rightarrow> run depth calls t')"
| "run depth (Remove v # calls) t = run depth calls (snd (remove v t))"

text \<open>The set of points that the calls leave of a set of points, were the tree a plain set.\<close>

fun points_after :: "call list \<Rightarrow> point set \<Rightarrow> point set" where
  "points_after [] S = S"
| "points_after (Add v # calls) S = points_after calls (insert v S)"
| "points_after (Remove v # calls) S = points_after calls (S - {v})"

section \<open>Node accessors and tree traversal\<close>

lemma child_nth:
  "child n ! 0 = child0 n" "child n ! Suc 0 = child1 n" "child n ! 1 = child1 n"
  "child n ! 2 = child2 n" "child n ! 3 = child3 n"
  by (simp_all add: child_def numeral_2_eq_2 numeral_3_eq_3)

lemma less_4_cases: "i < (4::nat) \<longleftrightarrow> i = 0 \<or> i = 1 \<or> i = 2 \<or> i = 3"
  by auto

lemma all_less_4: "(\<forall>i<4::nat. P i) \<longleftrightarrow> P 0 \<and> P 1 \<and> P 2 \<and> P 3"
  by (auto simp add: less_4_cases)

lemma ex_less_4: "(\<exists>i<4::nat. P i) \<longleftrightarrow> P 0 \<or> P 1 \<or> P 2 \<or> P 3"
  by (auto simp add: less_4_cases)

lemma set_child_fields [simp]:
  "center (set_child q c n) = center n" "size_xy (set_child q c n) = size_xy n"
  "bucket (set_child q c n) = bucket n" "leaf (set_child q c n) = leaf n"
  by (cases n; simp)+

lemma set_bucket_fields [simp]:
  "center (set_bucket b n) = center n" "size_xy (set_bucket b n) = size_xy n"
  "bucket (set_bucket b n) = b" "leaf (set_bucket b n) = leaf n"
  "child (set_bucket b n) = child n"
  by (cases n; simp add: child_def)+

lemma set_leaf_fields [simp]:
  "center (set_leaf l n) = center n" "size_xy (set_leaf l n) = size_xy n"
  "bucket (set_leaf l n) = bucket n" "leaf (set_leaf l n) = l"
  "child (set_leaf l n) = child n"
  by (cases n; simp add: child_def)+

lemma child_set_child:
  "i < 4 \<Longrightarrow> child (set_child q c n) ! i = (if i = q then c else child n ! i)"
  by (cases n) (auto simp add: child_def less_4_cases)

lemma QuadTreeNode_fields [simp]:
  "center (QuadTreeNode c s) = c" "size_xy (QuadTreeNode c s) = s"
  "bucket (QuadTreeNode c s) = []" "leaf (QuadTreeNode c s) = True"
  "child (QuadTreeNode c s) = [None, None, None, None]"
  by (simp_all add: QuadTreeNode_def child_def)

lemma node_induct [case_names node]:
  assumes "\<And>n. (\<And>i c. i < 4 \<Longrightarrow> child n ! i = Some c \<Longrightarrow> P c) \<Longrightarrow> P n"
  shows "P n"
proof (induction n rule: measure_induct_rule [where f = size])
  case (less n)
  show ?case by (rule assms) (rule less, rule child_size_less)
qed

definition all_nodes :: "(QuadTreeNode \<Rightarrow> bool) \<Rightarrow> QuadTreeNode \<Rightarrow> bool" where
  "all_nodes P n = list_all P (preorder n)"

lemma preorder_rec:
  "preorder n = n # concat (map (\<lambda>ch. case ch of None \<Rightarrow> [] | Some c \<Rightarrow> preorder c) (child n))"
  by (cases n) (simp add: child_def)

lemma all_nodes_rec:
  "all_nodes P n \<longleftrightarrow> P n \<and> (\<forall>i<4. \<forall>c. child n ! i = Some c \<longrightarrow> all_nodes P c)"
  by (cases n) (auto simp add: all_nodes_def all_less_4 child_nth split: option.splits)

lemma iter_node_rec:
  "iter_node n = (if leaf n then bucket n else [])
     @ concat (map (\<lambda>ch. case ch of None \<Rightarrow> [] | Some c \<Rightarrow> iter_node c) (child n))"
  by (cases n) (simp add: child_def iter_node_def split: option.splits)

lemma set_iter_node:
  "set (iter_node n) = (if leaf n then set (bucket n) else {})
     \<union> (\<Union>c\<in>{c. \<exists>i<4. child n ! i = Some c}. set (iter_node c))"
  by (subst iter_node_rec, cases n) (auto simp add: child_def ex_less_4 split: option.splits)


section \<open>The tree invariant\<close>

text \<open>
  \<open>node_ok\<close> collects what holds of every node between two calls: a leaf has no children,
  its bucket has no repeated point and at most \<open>max_bucket_size\<close> points; a stem has an
  empty bucket and a point below it (so a present child), and exists only for a positive
  capacity; a child has the centre and size that \<open>fitting_child_node\<close> gives it and holds
  only points that \<open>quadrant\<close> routes to its slot. With \<open>strict\<close>, every point below a
  node also lies in the region of the node.
\<close>

definition in_node_region :: "QuadTreeNode \<Rightarrow> point \<Rightarrow> bool" where
  "in_node_region n p = point_in_region p (fst (region n)) (snd (region n))"

definition node_ok :: "bool \<Rightarrow> int \<Rightarrow> QuadTreeNode \<Rightarrow> bool" where
  "node_ok strict cap n =
     ((if leaf n then child n = [None, None, None, None] \<and> distinct (bucket n)
                      \<and> int (length (bucket n)) \<le> max cap 0
       else bucket n = [] \<and> iter_node n \<noteq> [] \<and> 0 < cap)
      \<and> (\<forall>i<4. \<forall>c. child n ! i = Some c \<longrightarrow>
            center c = child_center n i
            \<and> size_xy c = (fst (size_xy n) / 2, snd (size_xy n) / 2)
            \<and> (\<forall>p\<in>set (iter_node c). quadrant n p = i))
      \<and> (strict \<longrightarrow> (\<forall>p\<in>set (iter_node n). in_node_region n p)))"

definition tree_ok :: "bool \<Rightarrow> int \<Rightarrow> QuadTreeNode \<Rightarrow> bool" where
  "tree_ok strict cap n = all_nodes (node_ok strict cap) n"

definition kids_ok :: "bool \<Rightarrow> int \<Rightarrow> QuadTreeNode \<Rightarrow> bool" where
  "kids_ok strict cap n =
     (\<forall>i<4. \<forall>c. child n ! i = Some c \<longrightarrow>
        tree_ok strict cap c
        \<and> center c = child_center n i
        \<and> size_xy c = (fst (size_xy n) / 2, snd (size_xy n) / 2)
        \<and> (\<forall>p\<in>set (iter_node c). quadrant n p = i \<and> (strict \<longrightarrow> in_node_region n p)))"

definition kid_points :: "QuadTreeNode \<Rightarrow> point set" where
  "kid_points n = (\<Union>c\<in>{c. \<exists>i<4. child n ! i = Some c}. set (iter_node c))"

lemma tree_ok_rec:
  "tree_ok strict cap n \<longleftrightarrow>
     node_ok strict cap n \<and> (\<forall>i<4. \<forall>c. child n ! i = Some c \<longrightarrow> tree_ok strict cap c)"
  unfolding tree_ok_def by (rule all_nodes_rec)

lemma set_iter_node_kids:
  "set (iter_node n) = (if leaf n then set (bucket n) else {}) \<union> kid_points n"
  unfolding kid_points_def by (rule set_iter_node)

lemma tree_ok_kids: "tree_ok strict cap n \<Longrightarrow> kids_ok strict cap n"
  unfolding kids_ok_def
proof (intro allI impI)
  fix i c assume ok: "tree_ok strict cap n" and i: "i < 4" and c: "child n ! i = Some c"
  from ok have n: "node_ok strict cap n" and "tree_ok strict cap c"
    using i c by (auto simp add: tree_ok_rec [of _ _ n])
  moreover have "set (iter_node c) \<subseteq> set (iter_node n)"
    using i c by (auto simp add: set_iter_node [of n])
  ultimately show "tree_ok strict cap c \<and> center c = child_center n i
        \<and> size_xy c = (fst (size_xy n) / 2, snd (size_xy n) / 2)
        \<and> (\<forall>p\<in>set (iter_node c). quadrant n p = i \<and> (strict \<longrightarrow> in_node_region n p))"
    using i c unfolding node_ok_def by blast
qed

lemma tree_ok_fresh: "tree_ok strict cap (QuadTreeNode c s)"
  by (simp add: tree_ok_rec [of _ _ "QuadTreeNode c s"] node_ok_def iter_node_rec [of "QuadTreeNode c s"]
      less_4_cases)

lemma quadrant_cong: "center n' = center n \<Longrightarrow> quadrant n' p = quadrant n p"
  by (simp add: quadrant_def)

lemma child_center_cong:
  "center n' = center n \<Longrightarrow> size_xy n' = size_xy n \<Longrightarrow> child_center n' i = child_center n i"
  by (simp add: child_center_def)

lemma in_node_region_cong:
  "center n' = center n \<Longrightarrow> size_xy n' = size_xy n \<Longrightarrow> in_node_region n' p = in_node_region n p"
  by (simp add: in_node_region_def region_def)

lemma in_child_region:
  assumes "in_node_region n v" and "center c = child_center n (quadrant n v)"
    and "size_xy c = (fst (size_xy n) / 2, snd (size_xy n) / 2)"
  shows "in_node_region c v"
  using assms
  by (cases "center n"; cases "size_xy n")
     (auto simp add: in_node_region_def region_def point_in_region_def quadrant_def child_center_def
        LOWER_LEFT_QUAD_def UPPER_LEFT_QUAD_def LOWER_RIGHT_QUAD_def UPPER_RIGHT_QUAD_def
        split: if_splits)


definition rest_points :: "QuadTreeNode \<Rightarrow> nat \<Rightarrow> point set" where
  "rest_points n q = (\<Union>c\<in>{c. \<exists>i<4. i \<noteq> q \<and> child n ! i = Some c}. set (iter_node c))"

lemma child_set_child_same: "q < 4 \<Longrightarrow> child (set_child q x n) ! q = x"
  by (simp add: child_set_child)

lemma child_set_child_other: "i < 4 \<Longrightarrow> i \<noteq> q \<Longrightarrow> child (set_child q x n) ! i = child n ! i"
  by (simp add: child_set_child)

lemma kid_points_set_child:
  assumes "q < 4"
  shows "kid_points (set_child q (Some c') n) = set (iter_node c') \<union> rest_points n q"
proof -
  have "{c. \<exists>i<4. child (set_child q (Some c') n) ! i = Some c}
        = insert c' {c. \<exists>i<4. i \<noteq> q \<and> child n ! i = Some c}"
    using assms by (auto simp add: child_set_child split: if_splits)
  then show ?thesis unfolding kid_points_def rest_points_def by simp
qed

lemma kid_points_clear_child:
  assumes "q < 4"
  shows "kid_points (set_child q None n) = rest_points n q"
proof -
  have "{c. \<exists>i<4. child (set_child q None n) ! i = Some c}
        = {c. \<exists>i<4. i \<noteq> q \<and> child n ! i = Some c}"
    using assms by (auto simp add: child_set_child split: if_splits)
  then show ?thesis unfolding kid_points_def rest_points_def by simp
qed

lemma kid_points_Some:
  assumes "q < 4" and "child n ! q = Some c"
  shows "kid_points n = set (iter_node c) \<union> rest_points n q"
proof -
  have "{c. \<exists>i<4. child n ! i = Some c} = insert c {c. \<exists>i<4. i \<noteq> q \<and> child n ! i = Some c}"
    using assms by (auto; metis option.inject)
  then show ?thesis unfolding kid_points_def rest_points_def by simp
qed

lemma kid_points_None:
  assumes "child n ! q = None"
  shows "kid_points n = rest_points n q"
proof -
  have "{c. \<exists>i<4. child n ! i = Some c} = {c. \<exists>i<4. i \<noteq> q \<and> child n ! i = Some c}"
    using assms by (auto; metis option.distinct(1))
  then show ?thesis unfolding kid_points_def rest_points_def by simp
qed

lemma set_child_twice: "set_child q x (set_child q y n) = set_child q x n"
  by (cases n) simp

lemma insert_child_kids:
  assumes IH: "\<And>v c c'. tree_ok s cap c \<Longrightarrow> (s \<longrightarrow> in_node_region c v) \<Longrightarrow> ins v c = Some c' \<Longrightarrow>
             tree_ok s cap c' \<and> set (iter_node c') = insert v (set (iter_node c))
             \<and> center c' = center c \<and> size_xy c' = size_xy c"
    and kids: "kids_ok s cap n" and reg: "s \<longrightarrow> in_node_region n v"
    and ins: "insert_child ins v n = Some n'"
  shows "kids_ok s cap n' \<and> kid_points n' = insert v (kid_points n) \<and> center n' = center n
         \<and> size_xy n' = size_xy n \<and> bucket n' = bucket n \<and> leaf n' = leaf n"
proof -
  define q where "q = quadrant n v"
  have q: "q < 4" unfolding q_def by (rule quadrant_less_4)
  define fresh where
    "fresh = QuadTreeNode (child_center n q) (fst (size_xy n) / 2, snd (size_xy n) / 2)"
  define c where "c = (case child n ! q of Some c \<Rightarrow> c | None \<Rightarrow> fresh)"
  define n1 where "n1 = (case child n ! q of Some c \<Rightarrow> n | None \<Rightarrow> set_child q (Some fresh) n)"
  have fit: "fitting_child_node n v = (c, n1)"
    by (simp add: fitting_child_node_def Let_def q_def [symmetric] c_def n1_def fresh_def
        split: option.splits)
  from ins obtain c' where c': "ins v c = Some c'" and "n' = set_child q (Some c') n1"
    by (auto simp add: insert_child_def fit q_def split: option.splits)
  then have n': "n' = set_child q (Some c') n"
    by (simp add: n1_def set_child_twice split: option.splits)
  have c_ok: "tree_ok s cap c" and c_ce: "center c = child_center n q"
    and c_sz: "size_xy c = (fst (size_xy n) / 2, snd (size_xy n) / 2)"
    and c_pts: "\<forall>p\<in>set (iter_node c). quadrant n p = q \<and> (s \<longrightarrow> in_node_region n p)"
    using kids q unfolding kids_ok_def c_def fresh_def
    by (auto simp add: tree_ok_fresh iter_node_rec [of "QuadTreeNode _ _"] split: option.splits)
  have kp: "kid_points n = set (iter_node c) \<union> rest_points n q"
    using q by (cases "child n ! q")
      (simp_all add: kid_points_None kid_points_Some c_def fresh_def iter_node_rec [of "QuadTreeNode _ _"])
  have "s \<longrightarrow> in_node_region c v"
    using reg in_child_region [of n v c] c_ce c_sz by (simp add: q_def)
  from IH [OF c_ok this c'] have c'_ok: "tree_ok s cap c'"
    and c'_pts: "set (iter_node c') = insert v (set (iter_node c))"
    and c'_ce: "center c' = center c" and c'_sz: "size_xy c' = size_xy c"
    by simp_all
  have cc: "child_center n' i = child_center n i" for i
    by (rule child_center_cong) (simp_all add: n')
  have qq: "quadrant n' p = quadrant n p" for p
    by (rule quadrant_cong) (simp add: n')
  have rr: "in_node_region n' p = in_node_region n p" for p
    by (rule in_node_region_cong) (simp_all add: n')
  have sz: "size_xy n' = size_xy n"
    by (simp add: n')
  have "kids_ok s cap n'"
    unfolding kids_ok_def
  proof (intro allI impI)
    fix i d assume i: "i < 4" and d: "child n' ! i = Some d"
    show "tree_ok s cap d \<and> center d = child_center n' i
          \<and> size_xy d = (fst (size_xy n') / 2, snd (size_xy n') / 2)
          \<and> (\<forall>p\<in>set (iter_node d). quadrant n' p = i \<and> (s \<longrightarrow> in_node_region n' p))"
    proof (cases "i = q")
      case True
      then have "d = c'" using d i by (simp add: n' child_set_child)
      then show ?thesis
        using True c'_ok c'_pts c'_ce c'_sz c_ce c_sz c_pts reg sz
        by (auto simp add: cc qq rr q_def)
    next
      case False
      then have "child n ! i = Some d" using d i by (simp add: n' child_set_child)
      with kids i show ?thesis
        unfolding kids_ok_def by (simp add: cc qq rr sz)
    qed
  qed
  moreover have "kid_points n' = insert v (kid_points n)"
    using q by (simp add: n' kid_points_set_child kp c'_pts)
  ultimately show ?thesis by (simp add: n')
qed

lemma insert_all_kids:
  assumes IH: "\<And>v c c'. tree_ok s cap c \<Longrightarrow> (s \<longrightarrow> in_node_region c v) \<Longrightarrow> ins v c = Some c' \<Longrightarrow>
             tree_ok s cap c' \<and> set (iter_node c') = insert v (set (iter_node c))
             \<and> center c' = center c \<and> size_xy c' = size_xy c"
  shows "kids_ok s cap n \<Longrightarrow> (s \<longrightarrow> (\<forall>p\<in>set ps. in_node_region n p)) \<Longrightarrow>
         insert_all ins ps n = Some n' \<Longrightarrow>
         kids_ok s cap n' \<and> kid_points n' = set ps \<union> kid_points n \<and> center n' = center n
         \<and> size_xy n' = size_xy n \<and> bucket n' = bucket n \<and> leaf n' = leaf n"
proof (induction ps arbitrary: n)
  case Nil
  then show ?case by simp
next
  case (Cons p ps)
  from Cons.prems(3) obtain n1 where n1: "insert_child ins p n = Some n1"
    and rest: "insert_all ins ps n1 = Some n'"
    by (auto split: option.splits)
  have p: "s \<longrightarrow> in_node_region n p"
    using Cons.prems(2) by simp
  have "kids_ok s cap n1 \<and> kid_points n1 = insert p (kid_points n) \<and> center n1 = center n
         \<and> size_xy n1 = size_xy n \<and> bucket n1 = bucket n \<and> leaf n1 = leaf n"
    using IH Cons.prems(1) p n1 by (rule insert_child_kids)
  then have 1: "kids_ok s cap n1" "kid_points n1 = insert p (kid_points n)" "center n1 = center n"
    "size_xy n1 = size_xy n" "bucket n1 = bucket n" "leaf n1 = leaf n"
    by simp_all
  have "s \<longrightarrow> (\<forall>p\<in>set ps. in_node_region n1 p)"
    using Cons.prems(2) in_node_region_cong [OF 1(3) 1(4)] by simp
  with 1(1) have "kids_ok s cap n' \<and> kid_points n' = set ps \<union> kid_points n1 \<and> center n' = center n1
         \<and> size_xy n' = size_xy n1 \<and> bucket n' = bucket n1 \<and> leaf n' = leaf n1"
    using rest by (rule Cons.IH)
  then show ?case
    by (simp add: 1)
qed


lemma kids_ok_cong:
  "child n' = child n \<Longrightarrow> center n' = center n \<Longrightarrow> size_xy n' = size_xy n \<Longrightarrow>
   kids_ok s cap n' = kids_ok s cap n"
  unfolding kids_ok_def
  by (simp add: child_center_cong [of n' n] quadrant_cong [of n' n] in_node_region_cong [of n' n])

lemma kid_points_cong: "child n' = child n \<Longrightarrow> kid_points n' = kid_points n"
  unfolding kid_points_def by simp

lemma kid_points_no_children: "child n = [None, None, None, None] \<Longrightarrow> kid_points n = {}"
  unfolding kid_points_def by (auto simp add: less_4_cases)

lemma kids_ok_no_children: "child n = [None, None, None, None] \<Longrightarrow> kids_ok s cap n"
  unfolding kids_ok_def by (auto simp add: less_4_cases)

lemma tree_okI:
  assumes kids: "kids_ok s cap n"
    and own: "if leaf n then child n = [None, None, None, None] \<and> distinct (bucket n)
                \<and> int (length (bucket n)) \<le> max cap 0
              else bucket n = [] \<and> iter_node n \<noteq> [] \<and> 0 < cap"
    and reg: "s \<longrightarrow> leaf n \<longrightarrow> (\<forall>p\<in>set (bucket n). in_node_region n p)"
  shows "tree_ok s cap n"
proof -
  have "\<forall>p\<in>kid_points n. s \<longrightarrow> in_node_region n p"
    using kids unfolding kids_ok_def kid_points_def by blast
  then have "s \<longrightarrow> (\<forall>p\<in>set (iter_node n). in_node_region n p)"
    using reg by (auto simp add: set_iter_node_kids [of n] split: if_splits)
  then have "node_ok s cap n"
    using kids own unfolding node_ok_def kids_ok_def by blast
  then show ?thesis
    using kids unfolding kids_ok_def by (subst tree_ok_rec) blast
qed

lemma insert_child_Some:
  "insert_child ins v n = Some n' \<Longrightarrow> \<exists>c c'. ins v c = Some c'"
  by (auto simp add: insert_child_def split: prod.splits option.splits)

lemma insert_node_cap_pos: "insert_node d cap v n = Some n' \<Longrightarrow> 0 < cap"
proof (induction d arbitrary: v n n')
  case 0
  then show ?case by simp
next
  case (Suc d)
  show ?case
  proof (cases "leaf n \<and> int (length (bucket n)) < cap")
    case True
    then show ?thesis by linarith
  next
    case False
    have "\<exists>w m m'. insert_child (insert_node d cap) w m = Some m'"
    proof (cases "leaf n")
      case True
      with False Suc.prems obtain n1 where
        "insert_child (insert_node d cap) v (set_leaf False n) = Some n1"
        by (auto split: option.splits)
      then show ?thesis by blast
    next
      case False
      with Suc.prems have "insert_child (insert_node d cap) v n = Some n'"
        by simp
      then show ?thesis by blast
    qed
    then show ?thesis
      using Suc.IH insert_child_Some by blast
  qed
qed

lemma insert_node_ok:
  "tree_ok s cap n \<Longrightarrow> (s \<longrightarrow> in_node_region n v) \<Longrightarrow> insert_node d cap v n = Some n' \<Longrightarrow>
   tree_ok s cap n' \<and> set (iter_node n') = insert v (set (iter_node n))
   \<and> center n' = center n \<and> size_xy n' = size_xy n"
proof (induction d arbitrary: v n n')
  case 0
  then show ?case by simp
next
  case (Suc d)
  have IH: "\<And>v c c'. tree_ok s cap c \<Longrightarrow> (s \<longrightarrow> in_node_region c v) \<Longrightarrow>
             insert_node d cap v c = Some c' \<Longrightarrow>
             tree_ok s cap c' \<and> set (iter_node c') = insert v (set (iter_node c))
             \<and> center c' = center c \<and> size_xy c' = size_xy c"
    by (rule Suc.IH)
  have cap: "0 < cap"
    using Suc.prems(3) by (rule insert_node_cap_pos)
  have nok: "node_ok s cap n"
    using Suc.prems(1) by (simp add: tree_ok_rec [of _ _ n])
  have kids: "kids_ok s cap n"
    using Suc.prems(1) by (rule tree_ok_kids)
  have pts: "set (iter_node n) = (if leaf n then set (bucket n) else {}) \<union> kid_points n"
    by (rule set_iter_node_kids)
  show ?case
  proof (cases "leaf n")
    case leaf: True
    then have nc: "child n = [None, None, None, None]" and dist: "distinct (bucket n)"
      and len: "int (length (bucket n)) \<le> cap"
      using nok cap unfolding node_ok_def by simp_all
    have pts_n: "set (iter_node n) = set (bucket n)"
      using leaf by (simp add: pts kid_points_no_children [OF nc])
    have breg: "s \<longrightarrow> (\<forall>p\<in>set (bucket n). in_node_region n p)"
      using nok pts_n unfolding node_ok_def by simp
    show ?thesis
    proof (cases "int (length (bucket n)) < cap")
      case room: True
      show ?thesis
      proof (cases "v \<in> set (bucket n)")
        case True
        then have "n' = n" using Suc.prems(3) leaf room by simp
        then show ?thesis using Suc.prems(1) True pts_n by auto
      next
        case False
        then have n': "n' = set_bucket (bucket n @ [v]) n"
          using Suc.prems(3) leaf room by simp
        have "kids_ok s cap n'"
          by (rule kids_ok_no_children) (simp add: n' nc)
        moreover have "if leaf n' then child n' = [None, None, None, None] \<and> distinct (bucket n')
                \<and> int (length (bucket n')) \<le> max cap 0
              else bucket n' = [] \<and> iter_node n' \<noteq> [] \<and> 0 < cap"
          using leaf nc dist room False by (simp add: n')
        moreover have "s \<longrightarrow> leaf n' \<longrightarrow> (\<forall>p\<in>set (bucket n'). in_node_region n' p)"
          using breg Suc.prems(2) in_node_region_cong [of n' n] by (simp add: n')
        ultimately have "tree_ok s cap n'"
          by (rule tree_okI)
        moreover have "set (iter_node n') = insert v (set (iter_node n))"
          using leaf set_iter_node_kids [of n']
          by (simp add: n' pts_n kid_points_no_children nc)
        ultimately show ?thesis by (simp add: n')
      qed
    next
      case full: False
      from Suc.prems(3) leaf full obtain n1 n2 where
        n1: "insert_child (insert_node d cap) v (set_leaf False n) = Some n1"
        and n2: "insert_all (insert_node d cap) (bucket n) n1 = Some n2"
        and n': "n' = set_bucket [] n2"
        by (auto split: option.splits)
      have k0: "kids_ok s cap (set_leaf False n)"
        by (rule kids_ok_no_children) (simp add: nc)
      have r0: "s \<longrightarrow> in_node_region (set_leaf False n) v"
        using Suc.prems(2) in_node_region_cong [of "set_leaf False n" n] by simp
      have "kids_ok s cap n1 \<and> kid_points n1 = insert v (kid_points (set_leaf False n))
            \<and> center n1 = center (set_leaf False n) \<and> size_xy n1 = size_xy (set_leaf False n)
            \<and> bucket n1 = bucket (set_leaf False n) \<and> leaf n1 = leaf (set_leaf False n)"
        using IH k0 r0 n1 by (rule insert_child_kids)
      then have 1: "kids_ok s cap n1" "kid_points n1 = {v}" "center n1 = center n"
        "size_xy n1 = size_xy n" "bucket n1 = bucket n" "leaf n1 = False"
        by (simp_all add: kid_points_no_children nc)
      have r1: "s \<longrightarrow> (\<forall>p\<in>set (bucket n). in_node_region n1 p)"
        using breg in_node_region_cong [OF 1(3) 1(4)] by simp
      have "kids_ok s cap n2 \<and> kid_points n2 = set (bucket n) \<union> kid_points n1
            \<and> center n2 = center n1 \<and> size_xy n2 = size_xy n1
            \<and> bucket n2 = bucket n1 \<and> leaf n2 = leaf n1"
        using IH 1(1) r1 n2 by (rule insert_all_kids)
      then have 2: "kids_ok s cap n2" "kid_points n2 = insert v (set (bucket n))"
        "center n2 = center n" "size_xy n2 = size_xy n" "leaf n2 = False"
        by (simp_all add: 1)
      have k': "kids_ok s cap n'"
        using 2(1) kids_ok_cong [of n' n2] by (simp add: n')
      have pts': "set (iter_node n') = insert v (set (bucket n))"
        using 2 set_iter_node_kids [of n'] kid_points_cong [of n' n2] by (simp add: n')
      then have "iter_node n' \<noteq> []"
        by auto
      then have "if leaf n' then child n' = [None, None, None, None] \<and> distinct (bucket n')
                \<and> int (length (bucket n')) \<le> max cap 0
              else bucket n' = [] \<and> iter_node n' \<noteq> [] \<and> 0 < cap"
        using cap 2 by (simp add: n')
      moreover have "s \<longrightarrow> leaf n' \<longrightarrow> (\<forall>p\<in>set (bucket n'). in_node_region n' p)"
        by (simp add: n')
      ultimately have "tree_ok s cap n'"
        using k' by (intro tree_okI)
      then show ?thesis
        using pts' pts_n 2 by (simp add: n')
    qed
  next
    case stem: False
    then have n'_def: "insert_child (insert_node d cap) v n = Some n'"
      using Suc.prems(3) by simp
    have "kids_ok s cap n' \<and> kid_points n' = insert v (kid_points n) \<and> center n' = center n
         \<and> size_xy n' = size_xy n \<and> bucket n' = bucket n \<and> leaf n' = leaf n"
      using IH kids Suc.prems(2) n'_def by (rule insert_child_kids)
    then have 1: "kids_ok s cap n'" "kid_points n' = insert v (kid_points n)" "center n' = center n"
      "size_xy n' = size_xy n" "bucket n' = bucket n" "leaf n' = False"
      using stem by simp_all
    have pts': "set (iter_node n') = insert v (set (iter_node n))"
      using stem 1 set_iter_node_kids [of n'] by (simp add: pts)
    then have "iter_node n' \<noteq> []"
      by auto
    then have "if leaf n' then child n' = [None, None, None, None] \<and> distinct (bucket n')
                \<and> int (length (bucket n')) \<le> max cap 0
              else bucket n' = [] \<and> iter_node n' \<noteq> [] \<and> 0 < cap"
      using cap 1 nok stem unfolding node_ok_def by simp
    moreover have "s \<longrightarrow> leaf n' \<longrightarrow> (\<forall>p\<in>set (bucket n'). in_node_region n' p)"
      using 1 by simp
    ultimately have "tree_ok s cap n'"
      using 1(1) by (intro tree_okI)
    then show ?thesis
      using pts' 1 by simp
  qed
qed

section \<open>Removal keeps the invariant\<close>

lemma has_stem_child_iff:
  "has_stem_child n \<longleftrightarrow> (\<exists>i<4. \<exists>c. child n ! i = Some c \<and> \<not> leaf c)"
  by (cases n) (auto simp add: has_stem_child_def child_def ex_less_4 split: option.splits)

lemma num_keys_explicit:
  "num_keys n = length (concat (map (\<lambda>ch. case ch of None \<Rightarrow> [] | Some c \<Rightarrow> bucket c) (child n)))"
  by (cases n) (simp add: num_keys_def child_def split: option.splits)

lemma upt_0_4: "[0..<4] = [0, 1, 2, 3]"
  by code_simp

lemma absorb_children_explicit:
  "absorb_children n =
     Node None None None None (center n) (size_xy n)
       (bucket n @ concat (map (\<lambda>ch. case ch of None \<Rightarrow> [] | Some c \<Rightarrow> bucket c) (child n))) True"
  by (cases n) (simp add: absorb_children_def child_def upt_0_4 split: option.splits)

lemma set_child_same: "q < 4 \<Longrightarrow> child n ! q = x \<Longrightarrow> set_child q x n = n"
  by (cases n) (auto simp add: child_def less_4_cases)

lemma leaf_iter_node:
  "child n = [None, None, None, None] \<Longrightarrow> iter_node n = (if leaf n then bucket n else [])"
  by (subst iter_node_rec) simp

lemma kids_distinct:
  assumes kids: "kids_ok s cap n"
    and dist: "\<forall>i<4. \<forall>c. child n ! i = Some c \<longrightarrow> distinct (iter_node c)"
  shows "distinct (concat (map (\<lambda>ch. case ch of None \<Rightarrow> [] | Some c \<Rightarrow> iter_node c) (child n)))"
proof -
  define f where "f = (\<lambda>ch. case ch of None \<Rightarrow> [] | Some c \<Rightarrow> iter_node c)"
  have d: "distinct (f (child n ! i))" if "i < 4" for i
    using dist that by (cases "child n ! i") (simp_all add: f_def)
  have q: "quadrant n p = i" if "i < 4" "p \<in> set (f (child n ! i))" for i p
    using kids that unfolding kids_ok_def by (cases "child n ! i") (auto simp add: f_def)
  have disj: "set (f (child n ! i)) \<inter> set (f (child n ! j)) = {}" if "i < 4" "j < 4" "i \<noteq> j" for i j
    using q that by blast
  have "distinct (f (child n ! 0) @ f (child n ! 1) @ f (child n ! 2) @ f (child n ! 3))"
    using d [of 0] d [of 1] d [of 2] d [of 3]
      disj [of 0 1] disj [of 0 2] disj [of 0 3] disj [of 1 2] disj [of 1 3] disj [of 2 3]
    by (simp add: Int_Un_distrib)
  then show ?thesis
    by (simp add: child_def f_def numeral_2_eq_2 numeral_3_eq_3)
qed

lemma tree_ok_distinct: "tree_ok s cap n \<Longrightarrow> distinct (iter_node n)"
proof (induction n rule: node_induct)
  case (node n)
  have kids: "kids_ok s cap n"
    using node.prems by (rule tree_ok_kids)
  then have "\<forall>i<4. \<forall>c. child n ! i = Some c \<longrightarrow> distinct (iter_node c)"
    using node.IH unfolding kids_ok_def by blast
  with kids have k: "distinct (concat (map (\<lambda>ch. case ch of None \<Rightarrow> [] | Some c \<Rightarrow> iter_node c) (child n)))"
    by (rule kids_distinct)
  have nok: "node_ok s cap n"
    using node.prems by (simp add: tree_ok_rec [of _ _ n])
  show ?case
  proof (cases "leaf n")
    case True
    then have "child n = [None, None, None, None]" "distinct (bucket n)"
      using nok unfolding node_ok_def by simp_all
    then show ?thesis using True by (simp add: leaf_iter_node)
  next
    case False
    then show ?thesis using k by (subst iter_node_rec) simp
  qed
qed

fun trace_ok :: "bool \<Rightarrow> int \<Rightarrow> QuadTreeNode \<Rightarrow> (QuadTreeNode \<times> nat) list \<Rightarrow> bool" where
  "trace_ok s cap c [] = True"
| "trace_ok s cap c ((parent, q) # trace) =
     (q < 4 \<and> child parent ! q = Some c \<and> \<not> leaf parent \<and> tree_ok s cap parent
      \<and> trace_ok s cap parent trace)"

lemma remove_walk_trace:
  "tree_ok s cap n \<Longrightarrow> trace_ok s cap n tr \<Longrightarrow> remove_walk v n tr = Some (topn, trace) \<Longrightarrow>
   tree_ok s cap topn \<and> leaf topn \<and> trace_ok s cap topn trace \<and> plug topn trace = plug n tr"
proof (induction v n tr rule: remove_walk.induct)
  case (1 v n tr)
  show ?case
  proof (cases "leaf n")
    case True
    then show ?thesis using "1.prems" by (subst (asm) remove_walk.simps) simp
  next
    case False
    define q where "q = quadrant n v"
    have q: "q < 4" unfolding q_def by (rule quadrant_less_4)
    from "1.prems"(3) False obtain c where c: "child n ! q = Some c"
      and walk: "remove_walk v c ((n, q) # tr) = Some (topn, trace)"
      by (subst (asm) remove_walk.simps) (auto simp add: q_def Let_def split: option.splits)
    have "tree_ok s cap c"
      using "1.prems"(1) q c by (auto simp add: tree_ok_rec [of _ _ n])
    moreover have "trace_ok s cap c ((n, q) # tr)"
      using "1.prems" q c False by simp
    ultimately have "tree_ok s cap topn \<and> leaf topn \<and> trace_ok s cap topn trace
        \<and> plug topn trace = plug c ((n, q) # tr)"
      using "1.IH" [OF False q_def c] walk by simp
    then show ?thesis
      using q c by (simp add: set_child_same)
  qed
qed

lemma remove_walk_member:
  "tree_ok s cap n \<Longrightarrow>
   (case remove_walk v n tr of
      None \<Rightarrow> v \<notin> set (iter_node n)
    | Some (topn, trace) \<Rightarrow> (v \<in> set (iter_node n)) = (v \<in> set (bucket topn)))"
proof (induction v n tr rule: remove_walk.induct)
  case (1 v n tr)
  have nok: "node_ok s cap n"
    using "1.prems" by (simp add: tree_ok_rec [of _ _ n])
  have kids: "kids_ok s cap n"
    using "1.prems" by (rule tree_ok_kids)
  show ?case
  proof (cases "leaf n")
    case True
    then have "child n = [None, None, None, None]"
      using nok unfolding node_ok_def by simp
    then show ?thesis using True by (subst remove_walk.simps) (simp add: leaf_iter_node)
  next
    case False
    define q where "q = quadrant n v"
    have q: "q < 4" unfolding q_def by (rule quadrant_less_4)
    have pts: "set (iter_node n) = kid_points n"
      using False by (simp add: set_iter_node_kids [of n])
    have notrest: "v \<notin> rest_points n q"
      using kids unfolding kids_ok_def rest_points_def q_def by auto
    show ?thesis
    proof (cases "child n ! q")
      case None
      then have "v \<notin> set (iter_node n)"
        using notrest by (simp add: pts kid_points_None)
      moreover have "remove_walk v n tr = None"
        using False None by (subst remove_walk.simps) (simp add: q_def [symmetric])
      ultimately show ?thesis by simp
    next
      case (Some c)
      have "tree_ok s cap c"
        using "1.prems" q Some by (auto simp add: tree_ok_rec [of _ _ n])
      then have IH: "case remove_walk v c ((n, q) # tr) of
          None \<Rightarrow> v \<notin> set (iter_node c)
        | Some (topn, trace) \<Rightarrow> (v \<in> set (iter_node c)) = (v \<in> set (bucket topn))"
        using "1.IH" [OF False q_def Some] by simp
      have "(v \<in> set (iter_node n)) = (v \<in> set (iter_node c))"
        using notrest q Some by (simp add: pts kid_points_Some)
      moreover have "remove_walk v n tr = remove_walk v c ((n, q) # tr)"
        using False Some by (subst remove_walk.simps) (simp add: q_def [symmetric])
      ultimately show ?thesis using IH by (auto split: option.splits)
    qed
  qed
qed

lemma contains_walk_remove_walk:
  "contains_walk v n =
     (case remove_walk v n tr of None \<Rightarrow> False | Some (topn, trace) \<Rightarrow> v \<in> set (bucket topn))"
proof (induction v n tr rule: remove_walk.induct)
  case (1 v n tr)
  show ?case
  proof (cases "leaf n")
    case True
    then show ?thesis by (subst contains_walk.simps, subst remove_walk.simps) simp
  next
    case False
    show ?thesis
    proof (cases "child n ! quadrant n v")
      case None
      then show ?thesis using False
        by (subst contains_walk.simps, subst remove_walk.simps) simp
    next
      case (Some c)
      then show ?thesis using False "1.IH" [OF False refl Some]
        by (subst contains_walk.simps, subst remove_walk.simps) simp
    qed
  qed
qed

text \<open>One step up the trace: the changed node \<open>cur\<close> is stored into the slot of its parent.\<close>

lemma kids_disjoint:
  assumes "kids_ok s cap n" and "q < 4" and "child n ! q = Some c"
  shows "set (iter_node c) \<inter> rest_points n q = {}"
proof -
  have False if "p \<in> set (iter_node c)" "i < 4" "i \<noteq> q" "child n ! i = Some d"
    "p \<in> set (iter_node d)" for p d i
  proof -
    have "quadrant n p = q" "quadrant n p = i"
      using assms that unfolding kids_ok_def by blast+
    then show False using that(3) by simp
  qed
  then show ?thesis unfolding rest_points_def by blast
qed

lemma hole_step:
  assumes q: "q < 4" and c: "child parent ! q = Some c" and stem: "\<not> leaf parent"
    and ok: "tree_ok s cap parent"
    and cur: "tree_ok s cap cur" "center cur = center c" "size_xy cur = size_xy c"
      "set (iter_node cur) \<subseteq> set (iter_node c)"
  defines "topn \<equiv> set_child q (Some cur) parent"
  shows "kids_ok s cap topn" and "\<not> leaf topn" and "bucket topn = []"
    and "center topn = center parent" and "size_xy topn = size_xy parent"
    and "set (iter_node topn) = set (iter_node parent) - (set (iter_node c) - set (iter_node cur))"
    and "0 < cap" and "set (iter_node cur) \<subseteq> set (iter_node topn)"
proof -
  have nok: "node_ok s cap parent"
    using ok by (simp add: tree_ok_rec [of _ _ parent])
  have kids: "kids_ok s cap parent"
    using ok by (rule tree_ok_kids)
  show "\<not> leaf topn" "center topn = center parent" "size_xy topn = size_xy parent"
    using stem by (simp_all add: topn_def)
  show "bucket topn = []" "0 < cap"
    using nok stem unfolding node_ok_def by (simp_all add: topn_def)
  have cc: "child_center topn i = child_center parent i" for i
    by (rule child_center_cong) (simp_all add: topn_def)
  have qq: "quadrant topn p = quadrant parent p" for p
    by (rule quadrant_cong) (simp add: topn_def)
  have rr: "in_node_region topn p = in_node_region parent p" for p
    by (rule in_node_region_cong) (simp_all add: topn_def)
  have sz: "size_xy topn = size_xy parent"
    by (simp add: topn_def)
  show "kids_ok s cap topn"
    unfolding kids_ok_def
  proof (intro allI impI)
    fix i d assume i: "i < 4" and d: "child topn ! i = Some d"
    show "tree_ok s cap d \<and> center d = child_center topn i
          \<and> size_xy d = (fst (size_xy topn) / 2, snd (size_xy topn) / 2)
          \<and> (\<forall>p\<in>set (iter_node d). quadrant topn p = i \<and> (s \<longrightarrow> in_node_region topn p))"
    proof (cases "i = q")
      case True
      then have "d = cur" using d i by (simp add: topn_def child_set_child)
      moreover have "center c = child_center parent q
          \<and> size_xy c = (fst (size_xy parent) / 2, snd (size_xy parent) / 2)
          \<and> (\<forall>p\<in>set (iter_node c). quadrant parent p = q \<and> (s \<longrightarrow> in_node_region parent p))"
        using kids q c unfolding kids_ok_def by blast
      ultimately show ?thesis
        using True cur by (auto simp add: cc qq rr sz)
    next
      case False
      then have "child parent ! i = Some d" using d i by (simp add: topn_def child_set_child)
      with kids i show ?thesis
        unfolding kids_ok_def by (simp add: cc qq rr sz)
    qed
  qed
  have disj: "set (iter_node c) \<inter> rest_points parent q = {}"
    using kids q c by (rule kids_disjoint)
  have t: "set (iter_node topn) = set (iter_node cur) \<union> rest_points parent q"
    using stem q set_iter_node_kids [of topn] by (simp add: topn_def kid_points_set_child)
  then show "set (iter_node cur) \<subseteq> set (iter_node topn)"
    by simp
  note t
  moreover have "set (iter_node parent) = set (iter_node c) \<union> rest_points parent q"
    using stem q c set_iter_node_kids [of parent] by (simp add: kid_points_Some)
  ultimately show "set (iter_node topn)
      = set (iter_node parent) - (set (iter_node c) - set (iter_node cur))"
    using disj cur(4) by blast
qed

lemma plug_ok:
  "trace_ok s cap c trace \<Longrightarrow> tree_ok s cap cur \<Longrightarrow> center cur = center c \<Longrightarrow>
   size_xy cur = size_xy c \<Longrightarrow> set (iter_node cur) \<subseteq> set (iter_node c) \<Longrightarrow>
   iter_node cur \<noteq> [] \<Longrightarrow>
   tree_ok s cap (plug cur trace)
   \<and> set (iter_node (plug cur trace))
       = set (iter_node (plug c trace)) - (set (iter_node c) - set (iter_node cur))
   \<and> center (plug cur trace) = center (plug c trace)
   \<and> size_xy (plug cur trace) = size_xy (plug c trace)"
proof (induction trace arbitrary: c cur)
  case Nil
  then show ?case by auto
next
  case (Cons frame trace)
  obtain parent q where frame: "frame = (parent, q)"
    by (cases frame)
  define topn where "topn = set_child q (Some cur) parent"
  have q: "q < 4" and c: "child parent ! q = Some c" and stem: "\<not> leaf parent"
    and ok: "tree_ok s cap parent" and tr: "trace_ok s cap parent trace"
    using Cons.prems(1) by (simp_all add: frame)
  note h = hole_step [OF q c stem ok Cons.prems(2-5), folded topn_def]
  have ne: "iter_node topn \<noteq> []"
    using h(8) Cons.prems(6) by auto
  have "if leaf topn then child topn = [None, None, None, None] \<and> distinct (bucket topn)
                \<and> int (length (bucket topn)) \<le> max cap 0
        else bucket topn = [] \<and> iter_node topn \<noteq> [] \<and> 0 < cap"
    using h ne by simp
  moreover have "s \<longrightarrow> leaf topn \<longrightarrow> (\<forall>p\<in>set (bucket topn). in_node_region topn p)"
    using h by simp
  ultimately have top_ok: "tree_ok s cap topn"
    using h(1) by (intro tree_okI)
  have sub: "set (iter_node topn) \<subseteq> set (iter_node parent)"
    using h(6) by blast
  have "tree_ok s cap (plug topn trace)
   \<and> set (iter_node (plug topn trace))
       = set (iter_node (plug parent trace)) - (set (iter_node parent) - set (iter_node topn))
   \<and> center (plug topn trace) = center (plug parent trace)
   \<and> size_xy (plug topn trace) = size_xy (plug parent trace)"
    using tr top_ok h(4) h(5) sub ne by (rule Cons.IH)
  moreover have "set (iter_node parent) - set (iter_node topn)
      = set (iter_node c) - set (iter_node cur)"
    using h(6) stem q c set_iter_node_kids [of parent] by (auto simp add: kid_points_Some)
  moreover have "plug c (frame # trace) = plug parent trace"
    using q c by (simp add: frame set_child_same)
  ultimately show ?case
    by (simp add: frame topn_def)
qed

lemma in_set_child: "ch \<in> set (child n) \<longleftrightarrow> (\<exists>i<4. child n ! i = ch)"
  by (auto simp add: child_def ex_less_4)

lemma leaf_kids_iter:
  assumes kids: "kids_ok s cap n" and nostem: "\<not> has_stem_child n"
    and stem: "\<not> leaf n"
  shows "iter_node n = concat (map (\<lambda>ch. case ch of None \<Rightarrow> [] | Some c \<Rightarrow> bucket c) (child n))"
proof -
  have "(case ch of None \<Rightarrow> [] | Some c \<Rightarrow> iter_node c)
        = (case ch of None \<Rightarrow> [] | Some c \<Rightarrow> bucket c)" if "ch \<in> set (child n)" for ch
  proof (cases ch)
    case None
    then show ?thesis by simp
  next
    case (Some d)
    have "\<exists>i<4. child n ! i = ch"
      using that by (simp only: in_set_child)
    then obtain i where i: "i < 4" "child n ! i = Some d"
      using Some by blast
    then have "leaf d"
      using nostem by (auto simp add: has_stem_child_iff)
    moreover have "node_ok s cap d"
      using kids i unfolding kids_ok_def by (auto simp add: tree_ok_rec [of _ _ d])
    ultimately have "iter_node d = bucket d"
      unfolding node_ok_def by (simp add: leaf_iter_node)
    then show ?thesis using Some by simp
  qed
  then have "map (\<lambda>ch. case ch of None \<Rightarrow> [] | Some c \<Rightarrow> iter_node c) (child n)
      = map (\<lambda>ch. case ch of None \<Rightarrow> [] | Some c \<Rightarrow> bucket c) (child n)"
    by (intro map_cong refl)
  then have "concat (map (\<lambda>ch. case ch of None \<Rightarrow> [] | Some c \<Rightarrow> iter_node c) (child n))
      = concat (map (\<lambda>ch. case ch of None \<Rightarrow> [] | Some c \<Rightarrow> bucket c) (child n))"
    by (rule arg_cong)
  moreover have "iter_node n = concat (map (\<lambda>ch. case ch of None \<Rightarrow> [] | Some c \<Rightarrow> iter_node c) (child n))"
    using stem by (subst iter_node_rec) simp
  ultimately show ?thesis
    by (simp only:)
qed

lemma kids_ok_distinct:
  assumes "kids_ok s cap n" and "\<not> leaf n"
  shows "distinct (iter_node n)"
proof -
  have "\<forall>i<4. \<forall>c. child n ! i = Some c \<longrightarrow> distinct (iter_node c)"
    using assms(1) tree_ok_distinct unfolding kids_ok_def by blast
  with assms(1) have "distinct (concat (map (\<lambda>ch. case ch of None \<Rightarrow> [] | Some c \<Rightarrow> iter_node c) (child n)))"
    by (rule kids_distinct)
  then show ?thesis
    using assms(2) by (subst iter_node_rec) simp
qed

lemma reduce_ok:
  "trace_ok s cap c trace \<Longrightarrow> tree_ok s cap cur \<Longrightarrow> center cur = center c \<Longrightarrow>
   size_xy cur = size_xy c \<Longrightarrow> set (iter_node cur) \<subseteq> set (iter_node c) \<Longrightarrow>
   tree_ok s cap (reduce cap cur trace)
   \<and> set (iter_node (reduce cap cur trace))
       = set (iter_node (plug c trace)) - (set (iter_node c) - set (iter_node cur))
   \<and> center (reduce cap cur trace) = center (plug c trace)
   \<and> size_xy (reduce cap cur trace) = size_xy (plug c trace)"
proof (induction trace arbitrary: c cur)
  case Nil
  then show ?case by auto
next
  case (Cons frame trace)
  obtain parent q where frame: "frame = (parent, q)"
    by (cases frame)
  define topn where "topn = set_child q (Some cur) parent"
  have q: "q < 4" and c: "child parent ! q = Some c" and stem: "\<not> leaf parent"
    and ok: "tree_ok s cap parent" and tr: "trace_ok s cap parent trace"
    using Cons.prems(1) by (simp_all add: frame)
  note h = hole_step [OF q c stem ok Cons.prems(2-5), folded topn_def]
  have sub: "set (iter_node topn) \<subseteq> set (iter_node parent)"
    using h(6) by blast
  have diff: "set (iter_node parent) - set (iter_node topn)
      = set (iter_node c) - set (iter_node cur)"
    using h(6) stem q c set_iter_node_kids [of parent] by (auto simp add: kid_points_Some)
  have pc: "plug c (frame # trace) = plug parent trace"
    using q c by (simp add: frame set_child_same)
  let ?goal = "\<lambda>r. tree_ok s cap r
   \<and> set (iter_node r)
       = set (iter_node (plug c (frame # trace))) - (set (iter_node c) - set (iter_node cur))
   \<and> center r = center (plug c (frame # trace))
   \<and> size_xy r = size_xy (plug c (frame # trace))"
  have plug_case: "?goal (plug topn trace)" if ne: "iter_node topn \<noteq> []"
  proof -
    have "if leaf topn then child topn = [None, None, None, None] \<and> distinct (bucket topn)
                \<and> int (length (bucket topn)) \<le> max cap 0
          else bucket topn = [] \<and> iter_node topn \<noteq> [] \<and> 0 < cap"
      using h ne by simp
    moreover have "s \<longrightarrow> leaf topn \<longrightarrow> (\<forall>p\<in>set (bucket topn). in_node_region topn p)"
      using h by simp
    ultimately have top_ok: "tree_ok s cap topn"
      using h(1) by (intro tree_okI)
    have "tree_ok s cap (plug topn trace)
     \<and> set (iter_node (plug topn trace))
         = set (iter_node (plug parent trace)) - (set (iter_node parent) - set (iter_node topn))
     \<and> center (plug topn trace) = center (plug parent trace)
     \<and> size_xy (plug topn trace) = size_xy (plug parent trace)"
      using tr top_ok h(4) h(5) sub ne by (rule plug_ok)
    then show ?thesis
      by (simp add: diff pc)
  qed
  have red: "reduce cap cur (frame # trace) =
     (if has_stem_child topn then plug topn trace
      else if int (num_keys topn) \<le> cap then reduce cap (absorb_children topn) trace
      else plug topn trace)"
    by (simp add: frame topn_def Let_def)
  show ?case
  proof (cases "has_stem_child topn")
    case True
    then obtain i d where i: "i < 4" "child topn ! i = Some d" "\<not> leaf d"
      by (auto simp add: has_stem_child_iff)
    then have "node_ok s cap d"
      using h(1) unfolding kids_ok_def by (auto simp add: tree_ok_rec [of _ _ d])
    then have "iter_node d \<noteq> []"
      using i(3) unfolding node_ok_def by simp
    moreover have "set (iter_node d) \<subseteq> set (iter_node topn)"
      using i by (auto simp add: set_iter_node [of topn])
    ultimately have "iter_node topn \<noteq> []"
      by auto
    then show ?thesis
      using plug_case True by (simp add: red)
  next
    case nostem: False
    have it: "iter_node topn
        = concat (map (\<lambda>ch. case ch of None \<Rightarrow> [] | Some c \<Rightarrow> bucket c) (child topn))"
      using h(1) nostem h(2) by (rule leaf_kids_iter)
    then have nk: "num_keys topn = length (iter_node topn)"
      by (simp add: num_keys_explicit)
    show ?thesis
    proof (cases "int (num_keys topn) \<le> cap")
      case True
      define cur' where "cur' = absorb_children topn"
      have cur': "cur' = Node None None None None (center topn) (size_xy topn) (iter_node topn) True"
        using h(3) by (simp add: cur'_def absorb_children_explicit it)
      then have f: "leaf cur'" "child cur' = [None, None, None, None]" "bucket cur' = iter_node topn"
        "center cur' = center parent" "size_xy cur' = size_xy parent"
        using h(4) h(5) by (simp_all add: child_def)
      have pts': "iter_node cur' = iter_node topn"
        using f by (simp add: leaf_iter_node)
      have "kids_ok s cap cur'"
        using f(2) by (rule kids_ok_no_children)
      moreover have "if leaf cur' then child cur' = [None, None, None, None] \<and> distinct (bucket cur')
                \<and> int (length (bucket cur')) \<le> max cap 0
          else bucket cur' = [] \<and> iter_node cur' \<noteq> [] \<and> 0 < cap"
        using f True nk kids_ok_distinct [OF h(1) h(2)] by simp
      moreover have "s \<longrightarrow> leaf cur' \<longrightarrow> (\<forall>p\<in>set (bucket cur'). in_node_region cur' p)"
      proof (intro impI ballI)
        fix p assume s and "p \<in> set (bucket cur')"
        then have "p \<in> kid_points topn"
          using f(3) h(2) set_iter_node_kids [of topn] by simp
        then have "in_node_region topn p"
          using h(1) \<open>s\<close> unfolding kids_ok_def kid_points_def by blast
        then show "in_node_region cur' p"
          using in_node_region_cong [of cur' topn] f h(4) h(5) by simp
      qed
      ultimately have "tree_ok s cap cur'"
        by (rule tree_okI)
      moreover have "set (iter_node cur') \<subseteq> set (iter_node parent)"
        using sub by (simp add: pts')
      ultimately have "tree_ok s cap (reduce cap cur' trace)
         \<and> set (iter_node (reduce cap cur' trace))
             = set (iter_node (plug parent trace)) - (set (iter_node parent) - set (iter_node cur'))
         \<and> center (reduce cap cur' trace) = center (plug parent trace)
         \<and> size_xy (reduce cap cur' trace) = size_xy (plug parent trace)"
        using tr f(4) f(5) by (intro Cons.IH)
      then show ?thesis
        using nostem True by (simp add: red cur'_def [symmetric] pts' diff pc)
    next
      case False
      then have "iter_node topn \<noteq> []"
        using h(7) nk by auto
      then show ?thesis
        using plug_case nostem False by (simp add: red)
    qed
  qed
qed

section \<open>The invariant along a sequence of calls\<close>

definition tree_inv :: "bool \<Rightarrow> QuadTree \<Rightarrow> bool" where
  "tree_inv s t = tree_ok s (max_bucket_size t) (root t)"

lemma new_QuadTree_root:
  "new_QuadTree rect cap = Inr t0 \<Longrightarrow>
   \<exists>c s. t0 = \<lparr>root = QuadTreeNode c s, max_bucket_size = cap\<rparr>"
  by (auto simp add: new_QuadTree_def split: sum.splits)

lemma new_QuadTree_inv: "new_QuadTree rect cap = Inr t0 \<Longrightarrow> tree_inv s t0"
  by (auto simp add: tree_inv_def tree_ok_fresh dest!: new_QuadTree_root)

lemma add_inv:
  assumes "tree_inv s t" and "s \<longrightarrow> in_node_region (root t) v" and "add d v t = Some t'"
  shows "tree_inv s t' \<and> set (iter t') = insert v (set (iter t))
         \<and> max_bucket_size t' = max_bucket_size t
         \<and> center (root t') = center (root t) \<and> size_xy (root t') = size_xy (root t)"
proof -
  from assms(3) obtain r where r: "insert_node d (max_bucket_size t) v (root t) = Some r"
    and t': "t' = t\<lparr>root := r\<rparr>"
    by (auto simp add: add_def split: option.splits)
  from insert_node_ok [OF assms(1) [unfolded tree_inv_def] assms(2) r]
  show ?thesis
    by (simp add: t' tree_inv_def iter_def)
qed

lemma remove_inv:
  assumes inv: "tree_inv s t"
  shows "tree_inv s (snd (remove v t)) \<and> set (iter (snd (remove v t))) = set (iter t) - {v}
         \<and> fst (remove v t) = (v \<in> set (iter t))
         \<and> max_bucket_size (snd (remove v t)) = max_bucket_size t
         \<and> center (root (snd (remove v t))) = center (root t)
         \<and> size_xy (root (snd (remove v t))) = size_xy (root t)"
proof -
  define cap where "cap = max_bucket_size t"
  have ok: "tree_ok s cap (root t)"
    using inv by (simp add: tree_inv_def cap_def)
  note mem = remove_walk_member [OF ok, of v "[]"]
  show ?thesis
  proof (cases "remove_walk v (root t) []")
    case None
    then have "remove v t = (False, t)"
      by (simp add: remove_def)
    then show ?thesis
      using mem None inv by (simp add: iter_def)
  next
    case (Some r)
    obtain topn trace where r: "r = (topn, trace)"
      by (cases r)
    have walk: "remove_walk v (root t) [] = Some (topn, trace)"
      using Some r by simp
    have "trace_ok s cap (root t) []"
      by simp
    from remove_walk_trace [OF ok this walk]
    have top_ok: "tree_ok s cap topn" and leaf: "leaf topn" and tr: "trace_ok s cap topn trace"
      and pl: "plug topn trace = root t"
      by simp_all
    have nok: "node_ok s cap topn"
      using top_ok by (simp add: tree_ok_rec [of _ _ topn])
    then have nc: "child topn = [None, None, None, None]" and dist: "distinct (bucket topn)"
      and len: "int (length (bucket topn)) \<le> max cap 0"
      using leaf unfolding node_ok_def by simp_all
    have pts_top: "iter_node topn = bucket topn"
      using leaf nc by (simp add: leaf_iter_node)
    have mem': "(v \<in> set (iter_node (root t))) = (v \<in> set (bucket topn))"
      using mem walk by simp
    show ?thesis
    proof (cases "v \<in> set (bucket topn)")
      case False
      then have "remove v t = (False, t)"
        using walk by (simp add: remove_def)
      then show ?thesis
        using mem' False inv by (simp add: iter_def)
    next
      case True
      define cur where "cur = set_bucket (remove1 v (bucket topn)) topn"
      have rem: "remove v t = (True, t\<lparr>root := reduce cap cur trace\<rparr>)"
        using walk True by (simp add: remove_def cur_def cap_def)
      have f: "leaf cur" "child cur = [None, None, None, None]"
        "bucket cur = remove1 v (bucket topn)" "center cur = center topn"
        "size_xy cur = size_xy topn"
        using leaf nc by (simp_all add: cur_def)
      have pts_cur: "iter_node cur = remove1 v (bucket topn)"
        using f by (simp add: leaf_iter_node)
      have "kids_ok s cap cur"
        using f(2) by (rule kids_ok_no_children)
      moreover have "if leaf cur then child cur = [None, None, None, None] \<and> distinct (bucket cur)
                \<and> int (length (bucket cur)) \<le> max cap 0
          else bucket cur = [] \<and> iter_node cur \<noteq> [] \<and> 0 < cap"
        using f dist len True by (simp add: length_remove1)
      moreover have "s \<longrightarrow> leaf cur \<longrightarrow> (\<forall>p\<in>set (bucket cur). in_node_region cur p)"
      proof (intro impI ballI)
        fix p assume s and "p \<in> set (bucket cur)"
        then have "p \<in> set (iter_node topn)"
          using f(3) pts_top set_remove1_subset [of v "bucket topn"] by auto
        then have "in_node_region topn p"
          using nok \<open>s\<close> unfolding node_ok_def by blast
        then show "in_node_region cur p"
          using in_node_region_cong [of cur topn] f by simp
      qed
      ultimately have cur_ok: "tree_ok s cap cur"
        by (rule tree_okI)
      have sub: "set (iter_node cur) \<subseteq> set (iter_node topn)"
        by (simp add: pts_cur pts_top set_remove1_subset)
      from reduce_ok [OF tr cur_ok f(4) f(5) sub]
      have "tree_ok s cap (reduce cap cur trace)"
        and "set (iter_node (reduce cap cur trace))
             = set (iter_node (root t)) - (set (iter_node topn) - set (iter_node cur))"
        and "center (reduce cap cur trace) = center (root t)"
        and "size_xy (reduce cap cur trace) = size_xy (root t)"
        by (simp_all add: pl)
      moreover have "set (iter_node topn) - set (iter_node cur) = {v}"
        using True dist by (auto simp add: pts_cur pts_top)
      ultimately show ?thesis
        using mem' True by (simp add: rem tree_inv_def iter_def cap_def)
    qed
  qed
qed

lemma run_inv:
  "tree_inv s t \<Longrightarrow> (s \<longrightarrow> (\<forall>v. Add v \<in> set calls \<longrightarrow> in_node_region (root t) v)) \<Longrightarrow>
   run d calls t = Some t' \<Longrightarrow>
   tree_inv s t' \<and> set (iter t') = points_after calls (set (iter t))
   \<and> max_bucket_size t' = max_bucket_size t
   \<and> center (root t') = center (root t) \<and> size_xy (root t') = size_xy (root t)"
proof (induction d calls t rule: run.induct)
  case (1 d t)
  then show ?case by simp
next
  case (2 d v calls t)
  from "2.prems"(3) obtain t1 where t1: "add d v t = Some t1" and rest: "run d calls t1 = Some t'"
    by (auto split: option.splits)
  have "s \<longrightarrow> in_node_region (root t) v"
    using "2.prems"(2) by (cases v) auto
  from add_inv [OF "2.prems"(1) this t1]
  have a: "tree_inv s t1" "set (iter t1) = insert v (set (iter t))"
    "max_bucket_size t1 = max_bucket_size t" "center (root t1) = center (root t)"
    "size_xy (root t1) = size_xy (root t)"
    by simp_all
  have "s \<longrightarrow> (\<forall>v. Add v \<in> set calls \<longrightarrow> in_node_region (root t1) v)"
    using "2.prems"(2) in_node_region_cong [OF a(4) a(5)] by simp
  from "2.IH" [OF t1 a(1) this rest] show ?case
    by (simp add: a)
next
  case (3 d v calls t)
  define t1 where "t1 = snd (remove v t)"
  from remove_inv [OF "3.prems"(1), of v]
  have a: "tree_inv s t1" "set (iter t1) = set (iter t) - {v}"
    "max_bucket_size t1 = max_bucket_size t" "center (root t1) = center (root t)"
    "size_xy (root t1) = size_xy (root t)"
    by (simp_all add: t1_def)
  have "s \<longrightarrow> (\<forall>v. Add v \<in> set calls \<longrightarrow> in_node_region (root t1) v)"
    using "3.prems"(2) in_node_region_cong [OF a(4) a(5)] by simp
  moreover have "run d calls t1 = Some t'"
    using "3.prems"(3) by (simp add: t1_def)
  ultimately have "tree_inv s t' \<and> set (iter t') = points_after calls (set (iter t1))
     \<and> max_bucket_size t' = max_bucket_size t1
     \<and> center (root t') = center (root t1) \<and> size_xy (root t') = size_xy (root t1)"
    using "3.IH" [folded t1_def, OF a(1)] by blast
  then show ?case
    by (simp add: a)
qed

section \<open>Example trees\<close>

text \<open>The tree \<^verbatim>\<open>QuadTree([(-1, -1), (1, 1)], 1)\<close>: the root has centre (0, 0) and size (2, 2).\<close>

definition ex_t0 :: QuadTree where
  "ex_t0 = \<lparr>root = Node None None None None (0, 0) (2, 2) [] True, max_bucket_size = 1\<rparr>"

text \<open>The same tree after \<^verbatim>\<open>add((1/2, 1/2))\<close> and \<^verbatim>\<open>add((-1/2, 1/2))\<close>: the root has split.\<close>

definition ex_t2 :: QuadTree where
  "ex_t2 =
     \<lparr>root = Node None (Some (Node None None None None (- 1, 1) (1, 1) [(- 1 / 2, 1 / 2)] True))
               None (Some (Node None None None None (1, 1) (1, 1) [(1 / 2, 1 / 2)] True))
               (0, 0) (2, 2) [] False,
      max_bucket_size = 1\<rparr>"

lemma ex_t0_new: "new_QuadTree ((- 1, - 1), (1, 1)) 1 = Inr ex_t0"
  by code_simp

lemma ex_t2_run: "run 3 [Add (1 / 2, 1 / 2), Add (- 1 / 2, 1 / 2), Remove (5, 5)] ex_t0 = Some ex_t2"
  by code_simp

lemma ex_t2_adds: "run 3 (map Add [(1 / 2, 1 / 2), (- 1 / 2, 1 / 2)]) ex_t0 = Some ex_t2"
  by code_simp

lemma ex_t0_collapse:
  "run 3 (map Add [(1 / 2, 1 / 2), (- 1 / 2, 1 / 2)] @ map Remove [(- 1 / 2, 1 / 2), (1 / 2, 1 / 2)]) ex_t0
   = Some ex_t0"
  by code_simp

section \<open>Claims about the shape of the tree\<close>

lemma all_nodes_iff: "all_nodes P n \<longleftrightarrow> (\<forall>m\<in>set (preorder n). P m)"
  by (simp add: all_nodes_def list_all_iff)

lemma reachable_inv:
  assumes "new_QuadTree rect cap = Inr t0" and "run d calls t0 = Some t"
  shows "tree_inv False t" and "max_bucket_size t = cap"
    and "set (iter t) = points_after calls {}"
proof -
  have inv0: "tree_inv False t0"
    using assms(1) by (rule new_QuadTree_inv)
  have "iter t0 = []" "max_bucket_size t0 = cap"
    using new_QuadTree_root [OF assms(1)]
    by (auto simp add: iter_def leaf_iter_node)
  with run_inv [OF inv0 _ assms(2)]
  show "tree_inv False t" "max_bucket_size t = cap" "set (iter t) = points_after calls {}"
    by simp_all
qed

text \<open>
  Claim C9. After every sequence of completed add and remove calls on a fresh tree, every
  node that is a leaf has its four child slots empty, and every node that is not a leaf has
  an empty bucket and at least one present child.
\<close>

theorem stem_leaf_shape:
  assumes "new_QuadTree rect cap = Inr t0" and "run d calls t0 = Some t"
  shows "\<forall>n\<in>set (preorder (root t)).
           if leaf n then child n = [None, None, None, None]
           else bucket n = [] \<and> (\<exists>i<4. child n ! i \<noteq> None)"
proof
  fix n assume n: "n \<in> set (preorder (root t))"
  have "tree_inv False t"
    using assms by (rule reachable_inv)
  then have nok: "node_ok False (max_bucket_size t) n"
    using n by (simp add: tree_inv_def tree_ok_def all_nodes_iff)
  show "if leaf n then child n = [None, None, None, None]
        else bucket n = [] \<and> (\<exists>i<4. child n ! i \<noteq> None)"
  proof (cases "leaf n")
    case True
    then show ?thesis using nok unfolding node_ok_def by simp
  next
    case False
    then have "bucket n = []" and "iter_node n \<noteq> []"
      using nok unfolding node_ok_def by simp_all
    then have "kid_points n \<noteq> {}"
      using False set_iter_node_kids [of n] by auto
    then have "\<exists>i<4. child n ! i \<noteq> None"
      unfolding kid_points_def by auto
    then show ?thesis using False \<open>bucket n = []\<close> by simp
  qed
qed

theorem stem_leaf_shape_witness:
  "new_QuadTree ((- 1, - 1), (1, 1)) 1 = Inr ex_t0
   \<and> run 3 [Add (1 / 2, 1 / 2), Add (- 1 / 2, 1 / 2), Remove (5, 5)] ex_t0 = Some ex_t2
   \<and> \<not> leaf (root ex_t2) \<and> bucket (root ex_t2) = [] \<and> (\<exists>i<4. child (root ex_t2) ! i \<noteq> None)"
proof -
  have "root ex_t2 \<in> set (preorder (root ex_t2))"
    by (cases "root ex_t2") simp
  moreover have "\<not> leaf (root ex_t2)"
    by (simp add: ex_t2_def)
  ultimately show ?thesis
    using stem_leaf_shape [OF ex_t0_new ex_t2_run] ex_t0_new ex_t2_run by auto
qed

lemma run_Add_cap_pos:
  assumes "run d (map Add vs) t0 = Some t" and "vs \<noteq> []"
  shows "0 < max_bucket_size t0"
proof -
  obtain v ws where "vs = v # ws"
    using assms(2) by (cases vs) auto
  with assms(1) obtain t1 where "add d v t0 = Some t1"
    by (auto split: option.splits)
  then obtain r where "insert_node d (max_bucket_size t0) v (root t0) = Some r"
    by (auto simp add: add_def split: option.splits)
  then show ?thesis by (rule insert_node_cap_pos)
qed

text \<open>
  Claim C2. A tree is constructed with capacity \<open>cap\<close> and a non-empty sequence of add
  calls is made, all of which return: then no leaf of the tree holds more than \<open>cap\<close>
  points in its bucket.
\<close>

theorem capacity_invariant:
  assumes "new_QuadTree rect cap = Inr t0" and "run d (map Add vs) t0 = Some t" and "vs \<noteq> []"
  shows "\<forall>n\<in>set (preorder (root t)). leaf n \<longrightarrow> int (length (bucket n)) \<le> cap"
proof (intro ballI impI)
  fix n assume n: "n \<in> set (preorder (root t))" and leaf: "leaf n"
  have "tree_inv False t" and cap: "max_bucket_size t = cap"
    using assms(1,2) by (rule reachable_inv)+
  then have "node_ok False cap n"
    using n by (simp add: tree_inv_def tree_ok_def all_nodes_iff)
  then have "int (length (bucket n)) \<le> max cap 0"
    using leaf unfolding node_ok_def by simp
  moreover have "0 < cap"
    using run_Add_cap_pos [OF assms(2,3)] new_QuadTree_root [OF assms(1)] by auto
  ultimately show "int (length (bucket n)) \<le> cap"
    by simp
qed

theorem capacity_invariant_witness:
  "new_QuadTree ((- 1, - 1), (1, 1)) 1 = Inr ex_t0
   \<and> run 3 (map Add [(1 / 2, 1 / 2), (- 1 / 2, 1 / 2)]) ex_t0 = Some ex_t2
   \<and> [(1 / 2, 1 / 2), (- 1 / 2, 1 / 2)] \<noteq> ([] :: point list)
   \<and> list_all (\<lambda>n. \<not> leaf n \<or> int (length (bucket n)) \<le> 1) (preorder (root ex_t2))"
proof -
  have "\<forall>n\<in>set (preorder (root ex_t2)). leaf n \<longrightarrow> int (length (bucket n)) \<le> 1"
    using ex_t0_new ex_t2_adds by (rule capacity_invariant) simp
  then show ?thesis
    using ex_t0_new ex_t2_adds by (auto simp add: list_all_iff)
qed

lemma points_after_adds: "points_after (map Add vs @ calls) S = points_after calls (S \<union> set vs)"
  by (induction vs arbitrary: S) simp_all

lemma points_after_removes: "points_after (map Remove rs) S = S - set rs"
  by (induction rs arbitrary: S) auto

lemma preorder_no_children: "child n = [None, None, None, None] \<Longrightarrow> preorder n = [n]"
  by (cases n) (simp add: child_def)

text \<open>
  Claim C3. Points are added to a fresh tree and then removed, and every added point is
  among the removed ones: afterwards the root is a leaf with an empty bucket and is the
  only node of the tree.
\<close>

theorem collapse_invariant:
  assumes "new_QuadTree rect cap = Inr t0"
    and "run d (map Add vs @ map Remove rs) t0 = Some t"
    and "set vs \<subseteq> set rs"
  shows "leaf (root t) \<and> bucket (root t) = [] \<and> preorder (root t) = [root t]"
proof -
  have inv: "tree_inv False t"
    and pts: "set (iter t) = points_after (map Add vs @ map Remove rs) {}"
    using assms(1,2) by (rule reachable_inv)+
  have "set (iter t) = {}"
    using assms(3) by (simp add: pts points_after_adds points_after_removes)
  then have empty: "iter_node (root t) = []"
    by (simp add: iter_def)
  have nok: "node_ok False (max_bucket_size t) (root t)"
    using inv by (simp add: tree_inv_def tree_ok_rec [of _ _ "root t"])
  then have leaf: "leaf (root t)"
    using empty unfolding node_ok_def by (cases "leaf (root t)") simp_all
  then have nc: "child (root t) = [None, None, None, None]"
    using nok unfolding node_ok_def by simp
  then have "bucket (root t) = []"
    using leaf empty by (simp add: leaf_iter_node)
  then show ?thesis
    using leaf nc by (simp add: preorder_no_children)
qed

theorem collapse_invariant_witness:
  "new_QuadTree ((- 1, - 1), (1, 1)) 1 = Inr ex_t0
   \<and> run 3 (map Add [(1 / 2, 1 / 2), (- 1 / 2, 1 / 2)]
            @ map Remove [(- 1 / 2, 1 / 2), (1 / 2, 1 / 2)]) ex_t0 = Some ex_t0
   \<and> set [(1 / 2, 1 / 2), (- 1 / 2, 1 / 2)] \<subseteq> set [(- 1 / 2, 1 / 2), (1 / 2, 1 / 2 :: rat)]
   \<and> leaf (root ex_t0) \<and> bucket (root ex_t0) = [] \<and> preorder (root ex_t0) = [root ex_t0]"
proof -
  have "set [(1 / 2, 1 / 2), (- 1 / 2, 1 / 2)] \<subseteq> set [(- 1 / 2, 1 / 2), (1 / 2, 1 / 2 :: rat)]"
    by simp
  with ex_t0_new ex_t0_collapse
  have "leaf (root ex_t0) \<and> bucket (root ex_t0) = [] \<and> preorder (root ex_t0) = [root ex_t0]"
    by (rule collapse_invariant)
  then show ?thesis
    using ex_t0_new ex_t0_collapse by simp
qed

section \<open>Set semantics\<close>








section \<open>Points and regions\<close>






section \<open>The contract of remove\<close>

lemma remove_walk_plug:
  "remove_walk v n tr = Some (topn, trace) \<Longrightarrow> leaf topn \<and> plug topn trace = plug n tr"
proof (induction v n tr rule: remove_walk.induct)
  case (1 v n tr)
  show ?case
  proof (cases "leaf n")
    case True
    then show ?thesis using "1.prems" by (subst (asm) remove_walk.simps) simp
  next
    case False
    define q where "q = quadrant n v"
    have q: "q < 4" unfolding q_def by (rule quadrant_less_4)
    from "1.prems" False obtain c where c: "child n ! q = Some c"
      and walk: "remove_walk v c ((n, q) # tr) = Some (topn, trace)"
      by (subst (asm) remove_walk.simps) (auto simp add: q_def Let_def split: option.splits)
    have "leaf topn \<and> plug topn trace = plug c ((n, q) # tr)"
      using "1.IH" [OF False q_def c] walk by simp
    then show ?thesis
      using q c by (simp add: set_child_same)
  qed
qed

text \<open>
  Claim C6. When \<^verbatim>\<open>contains(v)\<close> is false (the walk from the root reaches an empty child
  slot, or a leaf whose bucket lacks \<open>v\<close>), \<^verbatim>\<open>remove(v)\<close> returns false and the tree is the
  same as before. Otherwise the walk ends in a leaf \<open>topn\<close> whose bucket holds \<open>v\<close>, the
  recorded trace leads from the root to that leaf, and \<^verbatim>\<open>remove(v)\<close> returns true with the
  tree that \<open>reduce\<close> makes of the trace once \<open>v\<close> is deleted from the bucket of \<open>topn\<close>.
\<close>

theorem remove_contract:
  "(\<not> contains v t \<longrightarrow> remove v t = (False, t))
   \<and> (contains v t \<longrightarrow>
        (\<exists>topn trace. remove_walk v (root t) [] = Some (topn, trace)
           \<and> leaf topn \<and> v \<in> set (bucket topn) \<and> plug topn trace = root t
           \<and> remove v t =
               (True, t\<lparr>root := reduce (max_bucket_size t)
                                  (set_bucket (remove1 v (bucket topn)) topn) trace\<rparr>)))"
proof (cases "remove_walk v (root t) []")
  case None
  then have "\<not> contains v t"
    using contains_walk_remove_walk [of v "root t" "[]"] by (simp add: contains_def)
  then show ?thesis
    using None by (simp add: remove_def)
next
  case (Some r)
  obtain topn trace where r: "r = (topn, trace)"
    by (cases r)
  have walk: "remove_walk v (root t) [] = Some (topn, trace)"
    using Some r by simp
  then have c: "contains v t = (v \<in> set (bucket topn))"
    using contains_walk_remove_walk [of v "root t" "[]"] by (simp add: contains_def)
  have "leaf topn \<and> plug topn trace = root t"
    using remove_walk_plug [OF walk] by simp
  then show ?thesis
    using walk c by (simp add: remove_def)
qed

text \<open>In \<open>ex_t2\<close> the point (5, 5) is routed to the upper right leaf, which does not hold
  it; the point (1/2, 1/2) is found there, and its removal collapses the root.\<close>

definition ex_t3 :: QuadTree where
  "ex_t3 = \<lparr>root = Node None None None None (0, 0) (2, 2) [(- 1 / 2, 1 / 2)] True,
            max_bucket_size = 1\<rparr>"

theorem remove_contract_witness:
  "\<not> contains (5, 5) ex_t2 \<and> remove (5, 5) ex_t2 = (False, ex_t2)
   \<and> contains (1 / 2, 1 / 2) ex_t2 \<and> fst (remove (1 / 2, 1 / 2) ex_t2)
   \<and> snd (remove (1 / 2, 1 / 2) ex_t2) = ex_t3"
proof -
  have a: "\<not> contains (5, 5) ex_t2" and b: "contains (1 / 2, 1 / 2) ex_t2"
    by code_simp+
  have "remove (5, 5) ex_t2 = (False, ex_t2)"
    using a remove_contract [of "(5, 5)" ex_t2] by blast
  moreover have "fst (remove (1 / 2, 1 / 2) ex_t2)"
    using b remove_contract [of "(1 / 2, 1 / 2)" ex_t2] by auto
  moreover have "snd (remove (1 / 2, 1 / 2) ex_t2) = ex_t3"
    by code_simp
  ultimately show ?thesis
    using a b by simp
qed

section \<open>Adding a stored point\<close>

text \<open>The tree \<^verbatim>\<open>QuadTree([(-1, -1), (1, 1)], 2)\<close>; the tree after \<^verbatim>\<open>add((1, 1))\<close> and
  \<^verbatim>\<open>add((1/2, 1/2))\<close>, where the root is a full leaf; and the tree after a second
  \<^verbatim>\<open>add((1, 1))\<close>, where the root has become a stem.\<close>

definition ex_cap2 :: QuadTree where
  "ex_cap2 = \<lparr>root = Node None None None None (0, 0) (2, 2) [] True, max_bucket_size = 2\<rparr>"

definition ex_full :: QuadTree where
  "ex_full = \<lparr>root = Node None None None None (0, 0) (2, 2) [(1, 1), (1 / 2, 1 / 2)] True,
              max_bucket_size = 2\<rparr>"

definition ex_full_again :: QuadTree where
  "ex_full_again =
     \<lparr>root = Node None None None
               (Some (Node None None None None (1, 1) (1, 1) [(1, 1), (1 / 2, 1 / 2)] True))
               (0, 0) (2, 2) [] False,
      max_bucket_size = 2\<rparr>"

text \<open>The tree \<^verbatim>\<open>QuadTree([(-1, -1), (1, 1)], 1)\<close> after \<^verbatim>\<open>add((1/2, 1/2))\<close>.\<close>

definition ex_one :: QuadTree where
  "ex_one = \<lparr>root = Node None None None None (0, 0) (2, 2) [(1 / 2, 1 / 2)] True,
             max_bucket_size = 1\<rparr>"

text \<open>With capacity 1, a leaf that holds only \<open>v\<close> is split without end when \<open>v\<close> is
  inserted again: the new child receives \<open>v\<close>, is full, and is asked to take \<open>v\<close> once more.\<close>

lemma fitting_child_node_None:
  "child n ! quadrant n v = None \<Longrightarrow>
   fitting_child_node n v =
     (QuadTreeNode (child_center n (quadrant n v)) (fst (size_xy n) / 2, snd (size_xy n) / 2),
      set_child (quadrant n v)
        (Some (QuadTreeNode (child_center n (quadrant n v))
                 (fst (size_xy n) / 2, snd (size_xy n) / 2))) n)"
  by (simp add: fitting_child_node_def Let_def)

lemma fitting_child_node_Some:
  "child n ! quadrant n v = Some c \<Longrightarrow> fitting_child_node n v = (c, n)"
  by (simp add: fitting_child_node_def Let_def)

lemma no_children_nth: "child n = [None, None, None, None] \<Longrightarrow> q < 4 \<Longrightarrow> child n ! q = None"
  by (auto simp add: less_4_cases)

lemma insert_leaf_fresh:
  "0 < cap \<Longrightarrow> insert_node (Suc d) cap v (QuadTreeNode c s) = Some (set_bucket [v] (QuadTreeNode c s))"
  by simp

lemma insert_stored_capacity_one:
  "leaf n \<Longrightarrow> bucket n = [v] \<Longrightarrow> child n = [None, None, None, None] \<Longrightarrow>
   insert_node d 1 v n = None"
proof (induction d arbitrary: n)
  case 0
  show ?case by simp
next
  case (Suc d)
  define q where "q = quadrant n v"
  have q: "q < 4" unfolding q_def by (rule quadrant_less_4)
  define c where
    "c = QuadTreeNode (child_center (set_leaf False n) q) (fst (size_xy n) / 2, snd (size_xy n) / 2)"
  have qq: "quadrant (set_leaf False n) v = q"
    by (simp add: q_def quadrant_cong [of "set_leaf False n" n])
  have "child (set_leaf False n) ! quadrant (set_leaf False n) v = None"
    using Suc.prems(3) q no_children_nth [of "set_leaf False n" q] by (simp add: qq)
  then have fit: "fitting_child_node (set_leaf False n) v
      = (c, set_child q (Some c) (set_leaf False n))"
    by (simp add: fitting_child_node_None qq c_def)
  show ?case
  proof (cases d)
    case 0
    then show ?thesis
      using Suc.prems by (simp add: insert_child_def fit)
  next
    case (Suc d')
    define c' where "c' = set_bucket [v] c"
    define n1 where "n1 = set_child q (Some c') (set_leaf False n)"
    have "insert_node d 1 v c = Some c'"
      unfolding c_def c'_def Suc by (rule insert_leaf_fresh) simp
    then have 1: "insert_child (insert_node d 1) v (set_leaf False n) = Some n1"
      by (simp add: insert_child_def fit qq n1_def set_child_twice)
    have qq1: "quadrant n1 v = q"
      unfolding q_def by (rule quadrant_cong) (simp add: n1_def)
    have "child n1 ! quadrant n1 v = Some c'"
      using q by (simp add: qq1) (simp add: n1_def child_set_child)
    then have "fitting_child_node n1 v = (c', n1)"
      by (rule fitting_child_node_Some)
    moreover have "insert_node d 1 v c' = None"
      by (rule Suc.IH) (simp_all add: c'_def c_def)
    ultimately have "insert_child (insert_node d 1) v n1 = None"
      by (simp add: insert_child_def)
    then show ?thesis
      using Suc.prems 1 by simp
  qed
qed

text \<open>
  Claim C5 says that add of a stored point changes nothing in the tree. The program checks
  for the duplicate only in a leaf that has room. In \<open>ex_full\<close> the stored point (1, 1)
  sits in a full leaf: the call splits that leaf, so the tree is not the same afterwards.
  With capacity 1 the call on a stored point does not return at all.
\<close>

theorem add_stored_point_in_full_leaf:
  "new_QuadTree ((- 1, - 1), (1, 1)) 2 = Inr ex_cap2
   \<and> run 1 [Add (1, 1), Add (1 / 2, 1 / 2)] ex_cap2 = Some ex_full
   \<and> contains (1, 1) ex_full
   \<and> add 2 (1, 1) ex_full = Some ex_full_again
   \<and> ex_full_again \<noteq> ex_full
   \<and> run 1 [Add (1 / 2, 1 / 2)] ex_t0 = Some ex_one
   \<and> contains (1 / 2, 1 / 2) ex_one
   \<and> (\<forall>d. add d (1 / 2, 1 / 2) ex_one = None)"
proof -
  have "new_QuadTree ((- 1, - 1), (1, 1)) 2 = Inr ex_cap2"
    "run 1 [Add (1, 1), Add (1 / 2, 1 / 2)] ex_cap2 = Some ex_full"
    "contains (1, 1) ex_full"
    "add 2 (1, 1) ex_full = Some ex_full_again"
    "run 1 [Add (1 / 2, 1 / 2)] ex_t0 = Some ex_one"
    "contains (1 / 2, 1 / 2) ex_one"
    by code_simp+
  moreover have "ex_full_again \<noteq> ex_full"
    by (simp add: ex_full_again_def ex_full_def)
  moreover have "add d (1 / 2, 1 / 2) ex_one = None" for d
    by (simp add: add_def ex_one_def insert_stored_capacity_one child_def)
  ultimately show ?thesis
    by simp
qed

section \<open>Correctness of range search\<close>





















section \<open>Add followed by contains\<close>





section \<open>Add returns for points inside the region of the root\<close>



















section \<open>Quadrant routing\<close>

text \<open>
  Claim C8. The routing function sends a point to the right half exactly when its x is at
  least the node's centre x (quadrant index 2 or 3), to the top half exactly when its y is
  at least the centre y (index 1 or 3), and a point equal to the centre to the upper-right
  quadrant, index 3.
\<close>

theorem quadrant_tie_break:
  "(quadrant n p \<in> {LOWER_RIGHT_QUAD, UPPER_RIGHT_QUAD}) = (fst p \<ge> fst (center n))
   \<and> (quadrant n p \<in> {UPPER_LEFT_QUAD, UPPER_RIGHT_QUAD}) = (snd p \<ge> snd (center n))
   \<and> quadrant n (center n) = UPPER_RIGHT_QUAD"
  by (simp add: quadrant_def Let_def LOWER_RIGHT_QUAD_def UPPER_RIGHT_QUAD_def
      UPPER_LEFT_QUAD_def)

end
